theory Spec2Isabelle
  imports Complex_Main
begin

chapter \<open>The program\<close>

section \<open>Grid model\<close>

text \<open>
  The simulation core of \<^verbatim>\<open>src/main.cpp\<close>. C \<^verbatim>\<open>int\<close> values are grid indices and small
  pixel counts, far from overflow, and are modelled by \<open>int\<close>. C \<^verbatim>\<open>float\<close> values (pixel
  positions, speeds, timers) are modelled by \<open>real\<close>: rounding is not modelled. Every
  concrete input used below is a dyadic number on which single-precision arithmetic is exact.
\<close>

definition SCREEN_WIDTH :: int where "SCREEN_WIDTH = 480"

definition SCREEN_HEIGHT :: int where "SCREEN_HEIGHT = 600"

definition CELL :: int where "CELL = 30"

definition COLS :: int where "COLS = SCREEN_WIDTH div CELL"

definition ROWS :: int where "ROWS = SCREEN_HEIGHT div CELL"

datatype BlockType = NORMAL | BOMB | FREEZE | LASER_H | LASER_V

record Block =
  col :: int
  row :: int
  type :: BlockType

text \<open>An \<^verbatim>\<open>SDL_Point\<close> is the pair \<open>(x, y)\<close>; for grid cells \<open>x\<close> is the column and \<open>y\<close> the row.\<close>

type_synonym SDL_Point = "int \<times> int"

text \<open>
  \<^verbatim>\<open>buildOcc\<close>: the array \<^verbatim>\<open>occ[ROWS][COLS]\<close> is the function \<open>\<lambda>r c. occ[r][c]\<close>. The source
  reads it only after a bounds check; outside the grid the model gives \<open>False\<close>.
\<close>

definition buildOcc :: "Block list \<Rightarrow> int \<Rightarrow> int \<Rightarrow> bool" where
  "buildOcc blocks r c =
     list_ex (\<lambda>b. row b \<ge> 0 \<and> row b < ROWS \<and> col b \<ge> 0 \<and> col b < COLS
                  \<and> row b = r \<and> col b = c) blocks"

text \<open>The \<^verbatim>\<open>typeAt\<close> array of \<^verbatim>\<open>resolveFloatingClusters\<close>: a later block overwrites an earlier one.\<close>

definition buildTypeAt :: "Block list \<Rightarrow> int \<Rightarrow> int \<Rightarrow> BlockType" where
  "buildTypeAt blocks =
     foldl (\<lambda>t b. if row b \<ge> 0 \<and> row b < ROWS \<and> col b \<ge> 0 \<and> col b < COLS
                   then (\<lambda>r c. if r = row b \<and> c = col b then type b else t r c) else t)
           (\<lambda>r c. NORMAL) blocks"

section \<open>Connected components by breadth-first traversal\<close>

text \<open>The neighbour offsets \<^verbatim>\<open>(dc[k], dr[k])\<close> in the order the source tries them.\<close>

definition dirs :: "(int \<times> int) list" where
  "dirs = [(1, 0), (-1, 0), (0, 1), (0, -1)]"

text \<open>
  One iteration of the inner \<^verbatim>\<open>for k\<close> loop for the popped cell \<open>p\<close>. The array \<^verbatim>\<open>visited\<close> is the set
  of marked cells.
\<close>

fun visit :: "(int \<Rightarrow> int \<Rightarrow> bool) \<Rightarrow> SDL_Point \<Rightarrow> SDL_Point set \<times> SDL_Point list
    \<Rightarrow> int \<times> int \<Rightarrow> SDL_Point set \<times> SDL_Point list" where
  "visit occ p (visited, q) (dc, dr) =
     (let nc = fst p + dc; nr = snd p + dr in
      if nc < 0 \<or> nc \<ge> COLS \<or> nr < 0 \<or> nr \<ge> ROWS then (visited, q)
      else if \<not> occ nr nc \<or> (nc, nr) \<in> visited then (visited, q)
      else (insert (nc, nr) visited, q @ [(nc, nr)]))"

text \<open>The cells of the grid; the traversal ends because each push marks one more of them.\<close>

definition grid :: "SDL_Point set" where
  "grid = {0..<COLS} \<times> {0..<ROWS}"

lemma finite_grid: "finite grid"
  by (simp add: grid_def)

lemma visit_measure:
  assumes "visit occ p (v, q) d = (v', q')"
  shows "2 * card (grid - v') + length q' \<le> 2 * card (grid - v) + length q"
proof (cases d)
  case (Pair dc dr)
  let ?n = "(fst p + dc, snd p + dr)"
  show ?thesis
  proof (cases "v' = v")
    case True
    with assms Pair show ?thesis by (auto simp: Let_def split: if_splits)
  next
    case False
    with assms Pair have n: "?n \<in> grid" "?n \<notin> v" "v' = insert ?n v" "q' = q @ [?n]"
      by (auto simp: Let_def grid_def split: if_splits)
    have "grid - v' = (grid - v) - {?n}" using n by auto
    moreover have "?n \<in> grid - v" using n by simp
    moreover have "finite (grid - v)" using finite_grid by simp
    ultimately have "card (grid - v') < card (grid - v)"
      using card_Diff1_less [of "grid - v" ?n] by simp
    with n show ?thesis by simp
  qed
qed

lemma visits_measure:
  "foldl (visit occ p) (v, q) ds = (v', q')
   \<Longrightarrow> 2 * card (grid - v') + length q' \<le> 2 * card (grid - v) + length q"
proof (induction ds arbitrary: v q)
  case Nil
  then show ?case by simp
next
  case (Cons d ds)
  obtain v1 q1 where s: "visit occ p (v, q) d = (v1, q1)" by (cases "visit occ p (v, q) d")
  from Cons.prems s have "foldl (visit occ p) (v1, q1) ds = (v', q')" by simp
  from Cons.IH [OF this] visit_measure [OF s] show ?case by linarith
qed

text \<open>
  The \<^verbatim>\<open>while (!q.empty())\<close> loop: pop the front cell, append it to \<^verbatim>\<open>cells\<close>, push its
  unvisited occupied neighbours. It returns the collected cells and the marks.
\<close>

function bfs :: "(int \<Rightarrow> int \<Rightarrow> bool) \<Rightarrow> SDL_Point list \<Rightarrow> SDL_Point set \<Rightarrow> SDL_Point list
    \<Rightarrow> SDL_Point list \<times> SDL_Point set" where
  "bfs occ [] visited cells = (cells, visited)"
| "bfs occ (p # q) visited cells =
     (case foldl (visit occ p) (visited, q) dirs of
        (visited', q') \<Rightarrow> bfs occ q' visited' (cells @ [p]))"
  by pat_completeness auto

termination
proof (relation "measure (\<lambda>(occ, q, v, cells). 2 * card (grid - v) + length q)", goal_cases)
  case 1
  show ?case by simp
next
  case (2 occ p q visited cells v' q')
  then have "foldl (visit occ p) (visited, q) dirs = (v', q')" by simp
  from visits_measure [OF this] show ?case by simp
qed

section \<open>Support classification and cluster resolution\<close>

text \<open>
  The fields \<^verbatim>\<open>x\<close> and \<^verbatim>\<open>y\<close> of a \<^verbatim>\<open>FallingShape\<close>, its top-left corner in pixels, are
  named \<open>sx\<close> and \<open>sy\<close>: a record field is a constant of the whole theory.
\<close>

record FallingShape =
  sx :: real
  sy :: real
  speed :: real
  cells :: "SDL_Point list"
  types :: "BlockType list"

text \<open>The inner search of rule 2: is the cell \<open>(c, belowRow)\<close> a member of the component?\<close>

definition belowInComp :: "SDL_Point list \<Rightarrow> int \<Rightarrow> int \<Rightarrow> bool" where
  "belowInComp cs c belowRow = list_ex (\<lambda>qcell. fst qcell = c \<and> snd qcell = belowRow) cs"

text \<open>
  The support loop over the cells of a component \<open>cs\<close>; the last argument is the part of the
  component still to be inspected. The player footprint is \<open>(pLeftCol, pRightCol, pTopRow,
  pBotRow)\<close>.
\<close>

fun supportedLoop :: "(int \<Rightarrow> int \<Rightarrow> bool) \<Rightarrow> int \<Rightarrow> int \<Rightarrow> int \<Rightarrow> int
    \<Rightarrow> SDL_Point list \<Rightarrow> SDL_Point list \<Rightarrow> bool" where
  "supportedLoop occ pLeftCol pRightCol pTopRow pBotRow cs [] = False"
| "supportedLoop occ pLeftCol pRightCol pTopRow pBotRow cs (p # ps) =
     (let c = fst p; belowRow = snd p + 1 in
      if snd p = ROWS - 1 then True
      else if belowRow < ROWS \<and> occ belowRow c \<and> \<not> belowInComp cs c belowRow then True
      else if belowRow \<ge> pTopRow \<and> belowRow \<le> pBotRow \<and> c \<ge> pLeftCol \<and> c \<le> pRightCol
        then True
      else supportedLoop occ pLeftCol pRightCol pTopRow pBotRow cs ps)"

definition supported :: "(int \<Rightarrow> int \<Rightarrow> bool) \<Rightarrow> int \<Rightarrow> int \<Rightarrow> int \<Rightarrow> int
    \<Rightarrow> SDL_Point list \<Rightarrow> bool" where
  "supported occ pLeftCol pRightCol pTopRow pBotRow cs =
     supportedLoop occ pLeftCol pRightCol pTopRow pBotRow cs cs"

text \<open>A supported component is re-emitted cell by cell.\<close>

definition emitBlocks :: "(int \<Rightarrow> int \<Rightarrow> BlockType) \<Rightarrow> SDL_Point list \<Rightarrow> Block list" where
  "emitBlocks typeAt cs =
     map (\<lambda>p. \<lparr>col = fst p, row = snd p, type = typeAt (snd p) (fst p)\<rparr>) cs"

text \<open>
  A floating component becomes one rigid shape. The source starts the bounding box at
  \<^verbatim>\<open>cells[0]\<close>; a component always holds its start cell. The maxima \<^verbatim>\<open>maxC\<close>, \<^verbatim>\<open>maxR\<close> are
  computed by the source and never used.
\<close>

definition makeShape :: "real \<Rightarrow> (int \<Rightarrow> int \<Rightarrow> BlockType) \<Rightarrow> SDL_Point list \<Rightarrow> FallingShape" where
  "makeShape fallSpeed typeAt cs =
     (let minC = foldl (\<lambda>m p. if fst p < m then fst p else m) (fst (hd cs)) cs;
          minR = foldl (\<lambda>m p. if snd p < m then snd p else m) (snd (hd cs)) cs
      in \<lparr>sx = real_of_int (minC * CELL), sy = real_of_int (minR * CELL), speed = fallSpeed,
          cells = map (\<lambda>p. (fst p - minC, snd p - minR)) cs,
          types = map (\<lambda>p. typeAt (snd p) (fst p)) cs\<rparr>)"

text \<open>The body of the double loop over \<open>(r0, c0)\<close>, on the state \<open>(visited, newStatic, fallingShapes)\<close>.\<close>

definition resolveCell :: "(int \<Rightarrow> int \<Rightarrow> bool) \<Rightarrow> (int \<Rightarrow> int \<Rightarrow> BlockType) \<Rightarrow> real
    \<Rightarrow> int \<Rightarrow> int \<Rightarrow> int \<Rightarrow> int \<Rightarrow> int \<Rightarrow> int
    \<Rightarrow> SDL_Point set \<times> Block list \<times> FallingShape list
    \<Rightarrow> SDL_Point set \<times> Block list \<times> FallingShape list" where
  "resolveCell occ typeAt fallSpeed pLeftCol pRightCol pTopRow pBotRow r0 c0 st =
     (case st of (visited, newStatic, fallingShapes) \<Rightarrow>
        if \<not> occ r0 c0 \<or> (c0, r0) \<in> visited then st
        else (case bfs occ [(c0, r0)] (insert (c0, r0) visited) [] of (cs, visited') \<Rightarrow>
          if supported occ pLeftCol pRightCol pTopRow pBotRow cs
          then (visited', newStatic @ emitBlocks typeAt cs, fallingShapes)
          else (visited', newStatic, fallingShapes @ [makeShape fallSpeed typeAt cs])))"

definition resolveFloatingClusters :: "Block list \<Rightarrow> FallingShape list \<Rightarrow> real
    \<Rightarrow> int \<Rightarrow> int \<Rightarrow> int \<Rightarrow> int \<Rightarrow> Block list \<times> FallingShape list" where
  "resolveFloatingClusters staticBlocks fallingShapes fallSpeed pLeftCol pRightCol pTopRow pBotRow =
     (if staticBlocks = [] then (staticBlocks, fallingShapes)
      else
        let occ = buildOcc staticBlocks;
            typeAt = buildTypeAt staticBlocks;
            st = foldl (\<lambda>st r0. foldl (\<lambda>st c0.
                   resolveCell occ typeAt fallSpeed pLeftCol pRightCol pTopRow pBotRow r0 c0 st)
                   st [0..COLS - 1]) ({}, [], fallingShapes) [0..ROWS - 1]
        in (fst (snd st), snd (snd st)))"

text \<open>
  The source keeps no list of the components. This one is the list of the cell lists its double
  loop collects, in the order it collects them: the same scan and the same traversal, without
  the classification.
\<close>

definition collectCell :: "(int \<Rightarrow> int \<Rightarrow> bool) \<Rightarrow> int \<Rightarrow> int
    \<Rightarrow> SDL_Point set \<times> SDL_Point list list \<Rightarrow> SDL_Point set \<times> SDL_Point list list" where
  "collectCell occ r0 c0 st =
     (case st of (visited, comps) \<Rightarrow>
        if \<not> occ r0 c0 \<or> (c0, r0) \<in> visited then st
        else (case bfs occ [(c0, r0)] (insert (c0, r0) visited) [] of (cs, visited') \<Rightarrow>
          (visited', comps @ [cs])))"

definition components :: "(int \<Rightarrow> int \<Rightarrow> bool) \<Rightarrow> SDL_Point list list" where
  "components occ =
     snd (foldl (\<lambda>st r0. foldl (\<lambda>st c0. collectCell occ r0 c0 st) st [0..COLS - 1])
            ({}, []) [0..ROWS - 1])"

section \<open>Falling shapes\<close>

text \<open>The C conversion \<^verbatim>\<open>(int)\<close> of a float: truncation toward zero.\<close>

definition cint :: "real \<Rightarrow> int" where
  "cint v = (if v \<ge> 0 then \<lfloor>v\<rfloor> else \<lceil>v\<rceil>)"

text \<open>\<^verbatim>\<open>if (!landed || candY < finalY) { finalY = candY; landed = true; }\<close> on \<open>(finalY, landed)\<close>.\<close>

definition takeCand :: "real \<times> bool \<Rightarrow> real \<Rightarrow> real \<times> bool" where
  "takeCand st candY =
     (case st of (finalY, landed) \<Rightarrow> if \<not> landed \<or> candY < finalY then (candY, True) else st)"

text \<open>
  The body of the loop over the cells of a shape \<open>s\<close>: the ground test, then the scan of the
  cell's column for tiles whose top lies in the swept interval.
\<close>

definition landCell :: "(int \<Rightarrow> int \<Rightarrow> bool) \<Rightarrow> FallingShape \<Rightarrow> real \<Rightarrow> real \<times> bool \<Rightarrow> SDL_Point
    \<Rightarrow> real \<times> bool" where
  "landCell occ s newY st cell =
     (let oldBottom = sy s + real_of_int ((snd cell + 1) * CELL);
          newBottom = newY + real_of_int ((snd cell + 1) * CELL);
          st1 = (if newBottom \<ge> real_of_int SCREEN_HEIGHT
                 then takeCand st (real_of_int (SCREEN_HEIGHT - (snd cell + 1) * CELL)) else st);
          c = cint ((sx s + real_of_int (fst cell * CELL)) / real_of_int CELL)
      in if c < 0 \<or> c \<ge> COLS then st1
         else foldl (\<lambda>st r.
                if \<not> occ r c then st
                else let tileTop = real_of_int (r * CELL) in
                  if oldBottom \<le> tileTop \<and> newBottom \<ge> tileTop
                  then takeCand st (tileTop - real_of_int ((snd cell + 1) * CELL)) else st)
              st1 [0..ROWS - 1])"

text \<open>
  The conversion of a landed shape: one block per cell whose grid position is inside the grid.
  The source indexes \<^verbatim>\<open>cells\<close> and \<^verbatim>\<open>types\<close> together; both always have the same length.
\<close>

definition landBlocks :: "FallingShape \<Rightarrow> Block list" where
  "landBlocks s =
     concat (map (\<lambda>(cell, bt).
        let bc = cint (sx s / real_of_int CELL + real_of_int (fst cell));
            br = cint (sy s / real_of_int CELL + real_of_int (snd cell))
        in if bc \<ge> 0 \<and> bc < COLS \<and> br \<ge> 0 \<and> br < ROWS
           then [\<lparr>col = bc, row = br, type = bt\<rparr>] else [])
       (zip (cells s) (types s)))"

text \<open>The body of the loop over the shapes, on \<open>(staticBlocks, newShapes)\<close>.\<close>

definition fallShape :: "(int \<Rightarrow> int \<Rightarrow> bool) \<Rightarrow> real \<Rightarrow> Block list \<times> FallingShape list
    \<Rightarrow> FallingShape \<Rightarrow> Block list \<times> FallingShape list" where
  "fallShape occ dt st s =
     (case st of (staticBlocks, newShapes) \<Rightarrow>
        let newY = sy s + speed s * dt in
        case foldl (landCell occ s newY) (newY, False) (cells s) of (finalY, landed) \<Rightarrow>
          if landed then (staticBlocks @ landBlocks (s\<lparr>sy := finalY\<rparr>), newShapes)
          else (staticBlocks, newShapes @ [s\<lparr>sy := newY\<rparr>]))"

text \<open>The update of all falling shapes; \<^verbatim>\<open>occ\<close> is built once, before the loop.\<close>

definition updateFalling :: "real \<Rightarrow> Block list \<Rightarrow> FallingShape list
    \<Rightarrow> Block list \<times> FallingShape list" where
  "updateFalling dt staticBlocks fallingShapes =
     foldl (fallShape (buildOcc staticBlocks) dt) (staticBlocks, []) fallingShapes"

section \<open>Breaking and power effects\<close>

definition ABILITY_CD :: real where "ABILITY_CD = 0.5"

definition FREEZE_DURATION :: real where "FREEZE_DURATION = 10"

text \<open>
  The search loop of \<^verbatim>\<open>breakAt\<close>: the first block at the target is erased and its type
  returned.
\<close>

fun eraseFirstAt :: "int \<Rightarrow> int \<Rightarrow> Block list \<Rightarrow> (BlockType \<times> Block list) option" where
  "eraseFirstAt tc tr [] = None"
| "eraseFirstAt tc tr (b # bs) =
     (if col b = tc \<and> row b = tr then Some (type b, bs)
      else (case eraseFirstAt tc tr bs of None \<Rightarrow> None | Some (t, bs') \<Rightarrow> Some (t, b # bs')))"

text \<open>
  \<^verbatim>\<open>breakAt\<close> returns its boolean result with the updated cooldown \<^verbatim>\<open>cd\<close>, the updated
  \<^verbatim>\<open>usedType\<close> and the updated static list.
\<close>

definition breakAt :: "int \<Rightarrow> int \<Rightarrow> real \<Rightarrow> BlockType \<Rightarrow> Block list
    \<Rightarrow> bool \<times> real \<times> BlockType \<times> Block list" where
  "breakAt tc tr cd usedType staticBlocks =
     (if cd > 0 then (False, cd, usedType, staticBlocks)
      else if tc < 0 \<or> tc \<ge> COLS \<or> tr < 0 \<or> tr \<ge> ROWS then (False, cd, usedType, staticBlocks)
      else (case eraseFirstAt tc tr staticBlocks of
              Some (t, bs') \<Rightarrow> (True, ABILITY_CD, t, bs')
            | None \<Rightarrow> (False, cd, usedType, staticBlocks)))"

text \<open>
  The per-shape loop of a power effect: the cells for which \<open>hit\<close> holds are dropped with
  their types; then the shapes left without cells are erased.
\<close>

definition stripShape :: "(FallingShape \<Rightarrow> SDL_Point \<Rightarrow> bool) \<Rightarrow> FallingShape \<Rightarrow> FallingShape" where
  "stripShape hit s =
     (let kept = filter (\<lambda>(cell, bt). \<not> hit s cell) (zip (cells s) (types s))
      in s\<lparr>cells := map fst kept, types := map snd kept\<rparr>)"

definition stripShapes :: "(FallingShape \<Rightarrow> SDL_Point \<Rightarrow> bool) \<Rightarrow> FallingShape list
    \<Rightarrow> FallingShape list" where
  "stripShapes hit shapes = filter (\<lambda>fs. cells fs \<noteq> []) (map (stripShape hit) shapes)"

text \<open>\<^verbatim>\<open>applyPower\<close> on \<open>(staticBlocks, fallingShapes, freezeTimer)\<close>.\<close>

fun applyPower :: "BlockType \<Rightarrow> int \<Rightarrow> int \<Rightarrow> Block list \<times> FallingShape list \<times> real
    \<Rightarrow> Block list \<times> FallingShape list \<times> real" where
  "applyPower NORMAL c r st = st"
| "applyPower BOMB c r (staticBlocks, fallingShapes, freezeTimer) =
     (let rad = 5 in
      (filter (\<lambda>b. \<not> (\<bar>col b - c\<bar> \<le> rad \<and> \<bar>row b - r\<bar> \<le> rad)) staticBlocks,
       stripShapes (\<lambda>s cell.
          let gc = cint (sx s / real_of_int CELL) + fst cell;
              gr = cint (sy s / real_of_int CELL) + snd cell
          in \<bar>gc - c\<bar> \<le> rad \<and> \<bar>gr - r\<bar> \<le> rad) fallingShapes,
       freezeTimer))"
| "applyPower FREEZE c r (staticBlocks, fallingShapes, freezeTimer) =
     (staticBlocks, fallingShapes, FREEZE_DURATION)"
| "applyPower LASER_H c r (staticBlocks, fallingShapes, freezeTimer) =
     (filter (\<lambda>b. \<not> row b = r) staticBlocks,
      stripShapes (\<lambda>s cell. cint (sy s / real_of_int CELL) + snd cell = r) fallingShapes,
      freezeTimer)"
| "applyPower LASER_V c r (staticBlocks, fallingShapes, freezeTimer) =
     (filter (\<lambda>b. \<not> col b = c) staticBlocks,
      stripShapes (\<lambda>s cell. cint (sx s / real_of_int CELL) + fst cell = c) fallingShapes,
      freezeTimer)"

section \<open>Row clear\<close>

text \<open>
  The row-clear block without its \<^verbatim>\<open>gameOver\<close> guard. \<^verbatim>\<open>std::binary_search\<close> on the sorted
  \<^verbatim>\<open>fullRows\<close> is list membership.
\<close>

definition rowClear :: "Block list \<Rightarrow> Block list" where
  "rowClear staticBlocks =
     (if staticBlocks = [] then staticBlocks
      else
        let occ = buildOcc staticBlocks;
            fullRows = filter (\<lambda>r. list_all (\<lambda>c. occ r c) [0..COLS - 1]) [0..ROWS - 1]
        in if fullRows = [] then staticBlocks
           else
             let fullRows = sort fullRows in
             map (\<lambda>b. b\<lparr>row := row b + foldl (\<lambda>shift fr. if fr > row b then shift + 1 else shift) 0 fullRows\<rparr>)
               (filter (\<lambda>b. row b \<notin> set fullRows) staticBlocks))"

section \<open>One tick of the main loop\<close>

text \<open>
  The simulation state of \<^verbatim>\<open>main\<close>. The player rectangle is owned by the movement code, which is
  outside the model: a tick receives the rectangle as it stands after the movement block.
\<close>

record Game =
  staticBlocks :: "Block list"
  fallingShapes :: "FallingShape list"
  spawnTimer :: real
  elapsedTime :: real
  cdLeft :: real
  cdRight :: real
  cdUp :: real
  cdDown :: real
  timeSinceLastPowerup :: real
  freezeTimer :: real
  gameOver :: bool

text \<open>
  What a tick reads from outside: the clamped frame time, the four arrow keys, the player
  rectangle \<open>(x, y, w, h)\<close> after movement, and the successive results of \<^verbatim>\<open>std::rand()\<close>.
\<close>

record Frame =
  frameDt :: real
  keyLeft :: bool
  keyRight :: bool
  keyUp :: bool
  keyDown :: bool
  playerX :: int
  playerY :: int
  playerW :: int
  playerH :: int
  rand :: "nat \<Rightarrow> nat"

definition spawnInterval :: real where "spawnInterval = 0.75"

definition baseFall :: real where "baseFall = 220"

definition maxExtra :: real where "maxExtra = 60"

definition POWERUP_MAX_GAP :: real where "POWERUP_MAX_GAP = 15"

text \<open>C integer division truncates toward zero.\<close>

definition cdiv :: "int \<Rightarrow> int \<Rightarrow> int" where
  "cdiv a b = sgn a * sgn b * (\<bar>a\<bar> div \<bar>b\<bar>)"

text \<open>The head of the loop body: elapsed time, freeze countdown and cooldowns.\<close>

definition decayTimers :: "real \<Rightarrow> Game \<Rightarrow> Game" where
  "decayTimers d g =
     (let g1 = (if \<not> gameOver g
                then g\<lparr>elapsedTime := elapsedTime g + d,
                       timeSinceLastPowerup := timeSinceLastPowerup g + d\<rparr>
                else g);
          g2 = (if freezeTimer g1 > 0
                then g1\<lparr>freezeTimer := (if freezeTimer g1 - d < 0 then 0 else freezeTimer g1 - d)\<rparr>
                else g1)
      in g2\<lparr>cdLeft := max 0 (cdLeft g2 - d), cdRight := max 0 (cdRight g2 - d),
             cdUp := max 0 (cdUp g2 - d), cdDown := max 0 (cdDown g2 - d)\<rparr>)"

definition fallSpeedOf :: "Game \<Rightarrow> real" where
  "fallSpeedOf g = baseFall + min maxExtra (elapsedTime g * 5)"

text \<open>
  The spawn block. \<open>rnd k\<close> is the result of the \<open>k\<close>-th call of \<^verbatim>\<open>std::rand()\<close> in this tick;
  the calls are numbered in the order the source makes them.
\<close>

definition spawnPhase :: "(nat \<Rightarrow> nat) \<Rightarrow> real \<Rightarrow> real \<Rightarrow> Game \<Rightarrow> Game" where
  "spawnPhase rnd d fallSpeed g =
     (if gameOver g then g
      else if \<not> spawnTimer g + d \<ge> spawnInterval then g\<lparr>spawnTimer := spawnTimer g + d\<rparr>
      else
        let shape = rnd 0 mod 5;
            wCells = (if shape = 1 then 2 else if shape = 2 then 4 else 1) :: int;
            hCells = (if shape = 3 then 2 else if shape = 4 then 4 else 1) :: int;
            maxCol = COLS - wCells;
            c = (if maxCol > 0 then int (rnd 1) mod (maxCol + 1) else 0);
            k = (if maxCol > 0 then 2 else 1) :: nat;
            total = wCells * hCells;
            cells0 = concat (map (\<lambda>dy. map (\<lambda>dx. (dx, dy)) [0..wCells - 1]) [0..hCells - 1]);
            types0 = replicate (nat total) NORMAL;
            forced = (timeSinceLastPowerup g \<ge> POWERUP_MAX_GAP);
            makePowerup = (forced \<or> int (rnd k) mod 100 < 7);
            powerIndex = (if forced then int (rnd k) mod total
                          else if makePowerup then int (rnd (k + 1)) mod total else -1);
            k' = (if forced then k + 1 else if makePowerup then k + 2 else k + 1);
            t = rnd k' mod 4;
            pt = (if t = 0 then BOMB else if t = 1 then FREEZE else if t = 2 then LASER_H else LASER_V);
            powered = (makePowerup \<and> total > 0);
            fs = \<lparr>sx = real_of_int (c * CELL), sy = real_of_int (- hCells * CELL), speed = fallSpeed,
                  cells = cells0,
                  types = (if powered then types0[nat powerIndex := pt] else types0)\<rparr>
        in g\<lparr>spawnTimer := 0,
             timeSinceLastPowerup := (if powered then 0 else timeSinceLastPowerup g),
             fallingShapes := fallingShapes g @ [fs]\<rparr>)"

text \<open>The falling update with its two guards.\<close>

definition fallPhase :: "real \<Rightarrow> Game \<Rightarrow> Game" where
  "fallPhase d g =
     (if gameOver g then g
      else
        let frozen = (freezeTimer g > 0) in
        if frozen then g
        else (case updateFalling d (staticBlocks g) (fallingShapes g) of
                (sb, shapes) \<Rightarrow> g\<lparr>staticBlocks := sb, fallingShapes := shapes\<rparr>))"

text \<open>
  One arrow key: \<^verbatim>\<open>if (keys[...]) { if (breakAt(tc, tr, cd, usedType)) applyPower(usedType, tc, tr); }\<close>
  on the cooldown of that direction, \<^verbatim>\<open>usedType\<close> and \<open>(staticBlocks, fallingShapes, freezeTimer)\<close>.
\<close>

definition tryBreak :: "bool \<Rightarrow> int \<Rightarrow> int \<Rightarrow> real \<Rightarrow> BlockType
    \<Rightarrow> Block list \<times> FallingShape list \<times> real
    \<Rightarrow> real \<times> BlockType \<times> Block list \<times> FallingShape list \<times> real" where
  "tryBreak key tc tr cd usedType st =
     (if \<not> key then (cd, usedType, st)
      else (case st of (sb, shapes, ft) \<Rightarrow>
        (case breakAt tc tr cd usedType sb of (ok, cd', usedType', sb') \<Rightarrow>
           if ok then (cd', usedType', applyPower usedType' tc tr (sb', shapes, ft))
           else (cd', usedType', sb', shapes, ft))))"

definition breakPhase :: "Frame \<Rightarrow> Game \<Rightarrow> Game" where
  "breakPhase f g =
     (if gameOver g then g
      else
        let pCol = cdiv (playerX f) CELL;
            pRow = cdiv (playerY f) CELL;
            st0 = (staticBlocks g, fallingShapes g, freezeTimer g)
        in case tryBreak (keyLeft f) (pCol - 1) pRow (cdLeft g) NORMAL st0 of (cdL, u1, st1) \<Rightarrow>
           case tryBreak (keyRight f) (pCol + 1) pRow (cdRight g) u1 st1 of (cdR, u2, st2) \<Rightarrow>
           case tryBreak (keyUp f) pCol (pRow - 1) (cdUp g) u2 st2 of (cdU, u3, st3) \<Rightarrow>
           case tryBreak (keyDown f) pCol (pRow + 1) (cdDown g) u3 st3 of (cdD, u4, sb, shapes, ft) \<Rightarrow>
             g\<lparr>staticBlocks := sb, fallingShapes := shapes, freezeTimer := ft,
                cdLeft := cdL, cdRight := cdR, cdUp := cdU, cdDown := cdD\<rparr>)"

definition rowClearPhase :: "Game \<Rightarrow> Game" where
  "rowClearPhase g = (if gameOver g then g else g\<lparr>staticBlocks := rowClear (staticBlocks g)\<rparr>)"

definition clusterPhase :: "Frame \<Rightarrow> real \<Rightarrow> Game \<Rightarrow> Game" where
  "clusterPhase f fallSpeed g =
     (if \<not> gameOver g \<and> freezeTimer g \<le> 0
      then
        let pLeftCol = cdiv (playerX f) CELL;
            pRightCol = cdiv (playerX f + playerW f - 1) CELL;
            pTopRow = cdiv (playerY f) CELL;
            pBotRow = cdiv (playerY f + playerH f - 1) CELL
        in (case resolveFloatingClusters (staticBlocks g) (fallingShapes g) fallSpeed
                  pLeftCol pRightCol pTopRow pBotRow of
              (sb, shapes) \<Rightarrow> g\<lparr>staticBlocks := sb, fallingShapes := shapes\<rparr>)
      else g)"

definition gameOverCheck :: "Game \<Rightarrow> Game" where
  "gameOverCheck g =
     (if \<not> gameOver g \<and> list_ex (\<lambda>b. row b \<le> 0) (staticBlocks g) then g\<lparr>gameOver := True\<rparr> else g)"

text \<open>
  The simulation part of one pass of the \<^verbatim>\<open>while (running)\<close> loop, in the order of the source.
  Event polling, restart, player movement and rendering are outside the model.
\<close>

definition tick :: "Frame \<Rightarrow> Game \<Rightarrow> Game" where
  "tick f g =
     (let g1 = decayTimers (frameDt f) g;
          fallSpeed = fallSpeedOf g1;
          g2 = spawnPhase (rand f) (frameDt f) fallSpeed g1;
          g3 = fallPhase (frameDt f) g2;
          g4 = breakPhase f g3;
          g5 = rowClearPhase g4;
          g6 = clusterPhase f fallSpeed g5
      in gameOverCheck g6)"

chapter \<open>Notions used in the statements and proofs\<close>

section \<open>Traversal\<close>

text \<open>The four neighbours of a cell, and the occupied cells of the grid.\<close>

definition nbrs :: "SDL_Point \<Rightarrow> SDL_Point list" where
  "nbrs p = map (\<lambda>d. (fst p + fst d, snd p + snd d)) dirs"

definition occupied :: "(int \<Rightarrow> int \<Rightarrow> bool) \<Rightarrow> SDL_Point \<Rightarrow> bool" where
  "occupied occ n = (n \<in> grid \<and> occ (snd n) (fst n))"

text \<open>\<open>visit\<close> in terms of the neighbour cell itself.\<close>

definition push :: "(int \<Rightarrow> int \<Rightarrow> bool) \<Rightarrow> SDL_Point set \<times> SDL_Point list \<Rightarrow> SDL_Point
    \<Rightarrow> SDL_Point set \<times> SDL_Point list" where
  "push occ st n = (if occupied occ n \<and> n \<notin> fst st then (insert n (fst st), snd st @ [n]) else st)"

text \<open>The start cells \<open>(r0, c0)\<close> in the order of the double loop.\<close>

definition startCells :: "(int \<times> int) list" where
  "startCells = concat (map (\<lambda>r0. map (\<lambda>c0. (r0, c0)) [0..COLS - 1]) [0..ROWS - 1])"

text \<open>A set of cells that holds every occupied neighbour of each of its cells.\<close>

definition closedIn :: "(int \<Rightarrow> int \<Rightarrow> bool) \<Rightarrow> SDL_Point set \<Rightarrow> bool" where
  "closedIn occ A = (\<forall>p \<in> A. \<forall>n \<in> set (nbrs p). occupied occ n \<longrightarrow> n \<in> A)"

text \<open>The invariant of the double loop on the marks \<open>V\<close> and the components found so far.\<close>

definition scanInv :: "(int \<Rightarrow> int \<Rightarrow> bool) \<Rightarrow> SDL_Point set \<Rightarrow> SDL_Point list list \<Rightarrow> bool" where
  "scanInv occ V comps =
     (V = set (concat comps) \<and> distinct (concat comps) \<and> [] \<notin> set comps
      \<and> (\<forall>n \<in> V. occupied occ n) \<and> (\<forall>C \<in> set comps. closedIn occ (set C)))"

section \<open>Support\<close>

text \<open>The three support rules (ground, external tile below, player below) at one cell.\<close>

definition supportRule :: "(int \<Rightarrow> int \<Rightarrow> bool) \<Rightarrow> int \<Rightarrow> int \<Rightarrow> int \<Rightarrow> int
    \<Rightarrow> SDL_Point list \<Rightarrow> SDL_Point \<Rightarrow> bool" where
  "supportRule occ pLeftCol pRightCol pTopRow pBotRow C p =
     (snd p = ROWS - 1
      \<or> (snd p + 1 < ROWS \<and> occ (snd p + 1) (fst p) \<and> (fst p, snd p + 1) \<notin> set C)
      \<or> (snd p + 1 \<ge> pTopRow \<and> snd p + 1 \<le> pBotRow \<and> fst p \<ge> pLeftCol \<and> fst p \<le> pRightCol))"

text \<open>
  The two outputs of the resolver in terms of the component list: the supported components
  re-emitted in order, and one shape for every other component.
\<close>

definition emitAll :: "(int \<Rightarrow> int \<Rightarrow> bool) \<Rightarrow> (int \<Rightarrow> int \<Rightarrow> BlockType) \<Rightarrow> int \<Rightarrow> int \<Rightarrow> int \<Rightarrow> int
    \<Rightarrow> SDL_Point list list \<Rightarrow> Block list" where
  "emitAll occ typeAt pl pr pt pb comps =
     concat (map (emitBlocks typeAt) (filter (supported occ pl pr pt pb) comps))"

definition shapeAll :: "(int \<Rightarrow> int \<Rightarrow> bool) \<Rightarrow> (int \<Rightarrow> int \<Rightarrow> BlockType) \<Rightarrow> real
    \<Rightarrow> int \<Rightarrow> int \<Rightarrow> int \<Rightarrow> int \<Rightarrow> SDL_Point list list \<Rightarrow> FallingShape list" where
  "shapeAll occ typeAt v pl pr pt pb comps =
     map (makeShape v typeAt) (filter (\<lambda>C. \<not> supported occ pl pr pt pb C) comps)"

text \<open>The step of the loop that fills \<^verbatim>\<open>typeAt\<close>.\<close>

definition typeStep :: "(int \<Rightarrow> int \<Rightarrow> BlockType) \<Rightarrow> Block \<Rightarrow> int \<Rightarrow> int \<Rightarrow> BlockType" where
  "typeStep t b = (if row b \<ge> 0 \<and> row b < ROWS \<and> col b \<ge> 0 \<and> col b < COLS
                   then (\<lambda>r c. if r = row b \<and> c = col b then type b else t r c) else t)"

section \<open>Rows and cells\<close>

text \<open>A row is full when it is a row of the grid and every column of it holds a block.\<close>

definition fullRow :: "Block list \<Rightarrow> int \<Rightarrow> bool" where
  "fullRow bs r = (0 \<le> r \<and> r < ROWS \<and> (\<forall>c. 0 \<le> c \<and> c < COLS \<longrightarrow> (\<exists>b \<in> set bs. col b = c \<and> row b = r)))"

text \<open>The list \<^verbatim>\<open>fullRows\<close> the row-clear pass computes.\<close>

definition fullRowsOf :: "Block list \<Rightarrow> int list" where
  "fullRowsOf bs = filter (\<lambda>r. list_all (\<lambda>c. buildOcc bs r c) [0..COLS - 1]) [0..ROWS - 1]"


text \<open>At most one block per \<open>(col, row)\<close> cell.\<close>

definition onePerCell :: "Block list \<Rightarrow> bool" where
  "onePerCell bs = distinct (map (\<lambda>b. (col b, row b)) bs)"

section \<open>Power effects\<close>

text \<open>The grid position a power effect derives for a cell of a shape.\<close>

definition gridPos :: "FallingShape \<Rightarrow> SDL_Point \<Rightarrow> SDL_Point" where
  "gridPos s cell = (cint (sx s / real_of_int CELL) + fst cell, cint (sy s / real_of_int CELL) + snd cell)"

text \<open>Chebyshev distance at most 5 from the trigger cell \<open>(c, r)\<close>.\<close>

definition inBlast :: "int \<Rightarrow> int \<Rightarrow> SDL_Point \<Rightarrow> bool" where
  "inBlast c r p = (\<bar>fst p - c\<bar> \<le> 5 \<and> \<bar>snd p - r\<bar> \<le> 5)"

section \<open>Landing candidates\<close>

text \<open>The offset of a cell's bottom edge from the shape's origin, and the cell's column.\<close>

definition cellBottom :: "SDL_Point \<Rightarrow> real" where
  "cellBottom cell = real_of_int ((snd cell + 1) * CELL)"

definition cellColumn :: "FallingShape \<Rightarrow> SDL_Point \<Rightarrow> int" where
  "cellColumn s cell = cint ((sx s + real_of_int (fst cell * CELL)) / real_of_int CELL)"

text \<open>
  The landing candidates of one cell as the specification lists them: the floor candidate when
  the new bottom edge reaches the floor, and one candidate for every occupied tile of the cell's
  column whose top edge lies in the swept interval.
\<close>

definition tileCands :: "(int \<Rightarrow> int \<Rightarrow> bool) \<Rightarrow> FallingShape \<Rightarrow> real \<Rightarrow> SDL_Point \<Rightarrow> real list" where
  "tileCands occ s newY cell =
     map (\<lambda>r. real_of_int (r * CELL) - cellBottom cell)
       (filter (\<lambda>r. occ r (cellColumn s cell)
                  \<and> sy s + cellBottom cell \<le> real_of_int (r * CELL)
                  \<and> real_of_int (r * CELL) \<le> newY + cellBottom cell) [0..ROWS - 1])"

definition cellCands :: "(int \<Rightarrow> int \<Rightarrow> bool) \<Rightarrow> FallingShape \<Rightarrow> real \<Rightarrow> SDL_Point \<Rightarrow> real list" where
  "cellCands occ s newY cell =
     (if newY + cellBottom cell \<ge> real_of_int SCREEN_HEIGHT
      then [real_of_int SCREEN_HEIGHT - cellBottom cell] else [])
     @ (if cellColumn s cell < 0 \<or> cellColumn s cell \<ge> COLS then [] else tileCands occ s newY cell)"

definition candidates :: "(int \<Rightarrow> int \<Rightarrow> bool) \<Rightarrow> FallingShape \<Rightarrow> real \<Rightarrow> real list" where
  "candidates occ s newY = concat (map (cellCands occ s newY) (cells s))"

text \<open>The origin the falling update leaves a shape at, landed or not.\<close>

definition landingY :: "(int \<Rightarrow> int \<Rightarrow> bool) \<Rightarrow> real \<Rightarrow> FallingShape \<Rightarrow> real" where
  "landingY occ dt s =
     (if candidates occ s (sy s + speed s * dt) = [] then sy s + speed s * dt
      else Min (set (candidates occ s (sy s + speed s * dt))))"

text \<open>
  A shape starts clear of the tiles when every occupied tile of a cell's column lies entirely
  below the cell's bottom edge or entirely above its top edge.
\<close>

definition clearStart :: "(int \<Rightarrow> int \<Rightarrow> bool) \<Rightarrow> FallingShape \<Rightarrow> bool" where
  "clearStart occ s =
     (\<forall>cell \<in> set (cells s). \<forall>r. occ r (cellColumn s cell) \<longrightarrow>
        sy s + cellBottom cell \<le> real_of_int (r * CELL)
        \<or> real_of_int ((r + 1) * CELL) \<le> sy s + real_of_int (snd cell * CELL))"

text \<open>Every cell's bottom edge is at or above the floor.\<close>

definition aboveFloor :: "FallingShape \<Rightarrow> bool" where
  "aboveFloor s = (\<forall>cell \<in> set (cells s). sy s + cellBottom cell \<le> real_of_int SCREEN_HEIGHT)"

section \<open>The shapes of one falling update\<close>




section \<open>The suspended tick\<close>

text \<open>
  One arrow key in terms of \<open>breakAt\<close> and \<open>applyPower\<close> alone: when the key is down and the
  break succeeds, the block is gone, the cooldown is set and the power of the removed block is
  applied at the target; otherwise nothing changes.
\<close>

definition keyBreak :: "bool \<Rightarrow> int \<Rightarrow> int \<Rightarrow> real \<Rightarrow> BlockType
    \<Rightarrow> Block list \<times> FallingShape list \<times> real
    \<Rightarrow> real \<times> BlockType \<times> Block list \<times> FallingShape list \<times> real" where
  "keyBreak key tc tr cd u st =
     (let (sb, shapes, ft) = st;
          (ok, cd', t, sb') = breakAt tc tr cd u sb
      in if key \<and> ok then (cd', t, applyPower t tc tr (sb', shapes, ft)) else (cd, u, st))"

text \<open>
  What is left of a tick after the timers and the spawn when neither the falling update nor the
  cluster resolution runs: the four arrow keys in the order left, right, up, down, each breaking
  the block next to the player and applying its power, then the row clear, then the game-over
  test for a block in row 0 or above.
\<close>

definition suspendedRest :: "Frame \<Rightarrow> Game \<Rightarrow> Game" where
  "suspendedRest f g =
     (let pCol = cdiv (playerX f) CELL;
          pRow = cdiv (playerY f) CELL;
          (cdL, u1, st1) = keyBreak (keyLeft f) (pCol - 1) pRow (cdLeft g) NORMAL
                             (staticBlocks g, fallingShapes g, freezeTimer g);
          (cdR, u2, st2) = keyBreak (keyRight f) (pCol + 1) pRow (cdRight g) u1 st1;
          (cdU, u3, st3) = keyBreak (keyUp f) pCol (pRow - 1) (cdUp g) u2 st2;
          (cdD, u4, sb, shapes, ft) = keyBreak (keyDown f) pCol (pRow + 1) (cdDown g) u3 st3;
          cleared = rowClear sb
      in g\<lparr>staticBlocks := cleared, fallingShapes := shapes, freezeTimer := ft,
            cdLeft := cdL, cdRight := cdR, cdUp := cdU, cdDown := cdD,
            gameOver := list_ex (\<lambda>b. row b \<le> 0) cleared\<rparr>)"

chapter \<open>Properties\<close>

section \<open>Invariants of the traversal\<close>

lemma visit_push: "visit occ p st d = push occ st (fst p + fst d, snd p + snd d)"
  by (cases st; cases d) (auto simp: push_def occupied_def grid_def Let_def)

lemma visits_push: "foldl (visit occ p) st ds = foldl (push occ) st (map (\<lambda>d. (fst p + fst d, snd p + snd d)) ds)"
  by (induction ds arbitrary: st) (simp_all add: visit_push)

lemma expand_push: "foldl (visit occ p) st dirs = foldl (push occ) st (nbrs p)"
  by (simp add: visits_push nbrs_def)

lemma push_fold:
  "foldl (push occ) (v, q) ns = (v', q') \<Longrightarrow>
   \<exists>new. q' = q @ new \<and> v' = v \<union> set new \<and> distinct new \<and> set new \<inter> v = {}
      \<and> set new \<subseteq> set ns \<and> (\<forall>n \<in> set new. occupied occ n)
      \<and> (\<forall>n \<in> set ns. occupied occ n \<longrightarrow> n \<in> v')"
proof (induction ns arbitrary: v q)
  case Nil
  then show ?case by simp
next
  case (Cons n ns)
  show ?case
  proof (cases "occupied occ n \<and> n \<notin> v")
    case True
    then have "push occ (v, q) n = (insert n v, q @ [n])" by (simp add: push_def)
    with Cons.prems have "foldl (push occ) (insert n v, q @ [n]) ns = (v', q')"
      by simp
    from Cons.IH [OF this] obtain new where new: "q' = (q @ [n]) @ new" "v' = insert n v \<union> set new"
      "distinct new" "set new \<inter> insert n v = {}" "set new \<subseteq> set ns" "\<forall>m \<in> set new. occupied occ m"
      "\<forall>m \<in> set ns. occupied occ m \<longrightarrow> m \<in> v'" by blast
    show ?thesis
      by (rule exI [of _ "n # new"]) (use new True in auto)
  next
    case False
    then have "push occ (v, q) n = (v, q)" by (auto simp add: push_def)
    with Cons.prems have "foldl (push occ) (v, q) ns = (v', q')"
      by simp
    from Cons.IH [OF this] obtain new where new: "q' = q @ new" "v' = v \<union> set new"
      "distinct new" "set new \<inter> v = {}" "set new \<subseteq> set ns" "\<forall>m \<in> set new. occupied occ m"
      "\<forall>m \<in> set ns. occupied occ m \<longrightarrow> m \<in> v'" by blast
    show ?thesis
      by (rule exI [of _ new]) (use new False in auto)
  qed
qed

lemma bfs_result:
  "bfs occ q v cs0 = (cs', v') \<Longrightarrow>
   \<exists>new. cs' = cs0 @ q @ new \<and> v' = v \<union> set new \<and> distinct new \<and> set new \<inter> v = {}
      \<and> (\<forall>n \<in> set new. occupied occ n)
      \<and> (\<forall>p \<in> set q \<union> set new. \<forall>n \<in> set (nbrs p). occupied occ n \<longrightarrow> n \<in> v')"
proof (induction occ q v cs0 arbitrary: cs' v' rule: bfs.induct)
  case (1 occ visited cells)
  then show ?case by simp
next
  case (2 occ p q visited cells)
  obtain v1 q1 where e: "foldl (visit occ p) (visited, q) dirs = (v1, q1)"
    by (cases "foldl (visit occ p) (visited, q) dirs")
  then have "foldl (push occ) (visited, q) (nbrs p) = (v1, q1)" by (simp add: expand_push)
  from push_fold [OF this] obtain n1 where n1: "q1 = q @ n1" "v1 = visited \<union> set n1"
    "distinct n1" "set n1 \<inter> visited = {}" "\<forall>m \<in> set n1. occupied occ m"
    "\<forall>m \<in> set (nbrs p). occupied occ m \<longrightarrow> m \<in> v1" by blast
  from "2.prems" e have b: "bfs occ q1 v1 (cells @ [p]) = (cs', v')" by simp
  from "2.IH" [OF e [symmetric] b] obtain n2 where n2: "cs' = (cells @ [p]) @ q1 @ n2"
    "v' = v1 \<union> set n2" "distinct n2" "set n2 \<inter> v1 = {}" "\<forall>m \<in> set n2. occupied occ m"
    "\<forall>p \<in> set q1 \<union> set n2. \<forall>m \<in> set (nbrs p). occupied occ m \<longrightarrow> m \<in> v'" by blast
  show ?case
    by (rule exI [of _ "n1 @ n2"]) (use n1 n2 in auto)
qed

lemma nbrs_sym: "n \<in> set (nbrs p) \<Longrightarrow> p \<in> set (nbrs n)"
  by (cases p; cases n) (auto simp: nbrs_def dirs_def)

lemma foldl_nested:
  "foldl (\<lambda>st r0. foldl (\<lambda>st c0. f r0 c0 st) st ys) st xs
   = foldl (\<lambda>st rc. f (fst rc) (snd rc) st) st (concat (map (\<lambda>r. map (\<lambda>c. (r, c)) ys) xs))"
  by (induction xs arbitrary: st) (simp_all add: foldl_map)

lemma set_startCells: "set startCells = {rc. (snd rc, fst rc) \<in> grid}"
  by (auto simp: startCells_def grid_def)

lemma components_flat:
  "components occ = snd (foldl (\<lambda>st rc. collectCell occ (fst rc) (snd rc) st) ({}, []) startCells)"
  by (simp add: components_def startCells_def foldl_nested)

lemma scanInv_closed:
  assumes "scanInv occ V comps"
  shows "closedIn occ V"
  unfolding closedIn_def
proof (intro ballI impI)
  fix p n assume p: "p \<in> V" and n: "n \<in> set (nbrs p)" "occupied occ n"
  from assms have V: "V = (\<Union>C \<in> set comps. set C)" and cl: "\<forall>C \<in> set comps. closedIn occ (set C)"
    by (simp_all add: scanInv_def)
  from p V obtain C where C: "C \<in> set comps" "p \<in> set C" by blast
  with cl n have "n \<in> set C" unfolding closedIn_def by blast
  with C V show "n \<in> V" by blast
qed

lemma bfs_start:
  assumes inv: "scanInv occ V comps" and s: "occupied occ s" "s \<notin> V"
    and b: "bfs occ [s] (insert s V) [] = (C, V')"
  shows "scanInv occ V' (comps @ [C])" "s \<in> set C" "V' = V \<union> set C"
proof -
  from bfs_result [OF b] obtain new where new: "C = s # new" "V' = insert s V \<union> set new"
    "distinct new" "set new \<inter> insert s V = {}" "\<forall>n \<in> set new. occupied occ n"
    "\<forall>p \<in> set [s] \<union> set new. \<forall>n \<in> set (nbrs p). occupied occ n \<longrightarrow> n \<in> V'" by auto
  show sC: "s \<in> set C" and V': "V' = V \<union> set C" using new by auto
  have disj: "set C \<inter> V = {}" using new s by auto
  have dC: "distinct C" using new by auto
  have occC: "\<forall>n \<in> set C. occupied occ n" using new s by auto
  have clV: "closedIn occ V" by (rule scanInv_closed [OF inv])
  have clC: "closedIn occ (set C)"
    unfolding closedIn_def
  proof (intro ballI impI)
    fix p n assume p: "p \<in> set C" and n: "n \<in> set (nbrs p)" and o: "occupied occ n"
    from p new have "n \<in> V'" using n o by auto
    moreover have "n \<notin> V"
    proof
      assume "n \<in> V"
      moreover have "p \<in> set (nbrs n)" by (rule nbrs_sym [OF n])
      moreover have "occupied occ p" using occC p by blast
      ultimately have "p \<in> V" using clV unfolding closedIn_def by blast
      with disj p show False by blast
    qed
    ultimately show "n \<in> set C" using V' by blast
  qed
  from inv have i: "V = set (concat comps)" "distinct (concat comps)" "[] \<notin> set comps"
    "\<forall>n \<in> V. occupied occ n" "\<forall>C \<in> set comps. closedIn occ (set C)"
    unfolding scanInv_def by auto
  show "scanInv occ V' (comps @ [C])"
    unfolding scanInv_def using i V' dC disj occC clC new(1) by auto
qed

lemma collectCell_inv:
  assumes inv: "scanInv occ V comps" and g: "(c0, r0) \<in> grid"
    and c: "collectCell occ r0 c0 (V, comps) = (V', comps')"
  shows "scanInv occ V' comps' \<and> V \<subseteq> V' \<and> (occ r0 c0 \<longrightarrow> (c0, r0) \<in> V')"
proof (cases "\<not> occ r0 c0 \<or> (c0, r0) \<in> V")
  case True
  with c have "V' = V" "comps' = comps" by (auto simp: collectCell_def)
  with inv True show ?thesis by auto
next
  case False
  obtain C V1 where b: "bfs occ [(c0, r0)] (insert (c0, r0) V) [] = (C, V1)"
    by (cases "bfs occ [(c0, r0)] (insert (c0, r0) V) []")
  with c False have e: "V' = V1" "comps' = comps @ [C]" by (auto simp: collectCell_def)
  from False g have "occupied occ (c0, r0)" "(c0, r0) \<notin> V" by (auto simp: occupied_def)
  from bfs_start [OF inv this b] e show ?thesis by auto
qed

lemma collect_fold_inv:
  "scanInv occ V comps \<Longrightarrow> set xs \<subseteq> set startCells
   \<Longrightarrow> foldl (\<lambda>st rc. collectCell occ (fst rc) (snd rc) st) (V, comps) xs = (V', comps')
   \<Longrightarrow> scanInv occ V' comps' \<and> V \<subseteq> V' \<and> (\<forall>rc \<in> set xs. occ (fst rc) (snd rc) \<longrightarrow> (snd rc, fst rc) \<in> V')"
proof (induction xs arbitrary: V comps)
  case Nil
  then show ?case by simp
next
  case (Cons x xs)
  obtain V1 comps1 where c: "collectCell occ (fst x) (snd x) (V, comps) = (V1, comps1)"
    by (cases "collectCell occ (fst x) (snd x) (V, comps)")
  from Cons.prems(2) have g: "(snd x, fst x) \<in> grid" by (simp add: set_startCells)
  from collectCell_inv [OF Cons.prems(1) g c]
  have 1: "scanInv occ V1 comps1" "V \<subseteq> V1" "occ (fst x) (snd x) \<longrightarrow> (snd x, fst x) \<in> V1" by auto
  from Cons.prems c have "foldl (\<lambda>st rc. collectCell occ (fst rc) (snd rc) st) (V1, comps1) xs = (V', comps')"
    by simp
  from Cons.IH [OF 1(1) _ this] Cons.prems(2)
  have 2: "scanInv occ V' comps'" "V1 \<subseteq> V'"
    "\<forall>rc \<in> set xs. occ (fst rc) (snd rc) \<longrightarrow> (snd rc, fst rc) \<in> V'" by auto
  with 1 show ?case by auto
qed

lemma components_inv:
  "scanInv occ (set (concat (components occ))) (components occ)"
  "\<forall>n. occupied occ n \<longrightarrow> n \<in> set (concat (components occ))"
proof -
  obtain V comps where f: "foldl (\<lambda>st rc. collectCell occ (fst rc) (snd rc) st) ({}, []) startCells = (V, comps)"
    by (cases "foldl (\<lambda>st rc. collectCell occ (fst rc) (snd rc) st) ({}, []) startCells")
  then have c: "components occ = comps" by (simp add: components_flat)
  have "scanInv occ {} []" by (simp add: scanInv_def)
  from collect_fold_inv [OF this subset_refl f]
  have i: "scanInv occ V comps" "\<forall>rc \<in> set startCells. occ (fst rc) (snd rc) \<longrightarrow> (snd rc, fst rc) \<in> V"
    by auto
  then have V: "V = set (concat comps)" by (simp add: scanInv_def)
  show "scanInv occ (set (concat (components occ))) (components occ)" using i V c by simp
  show "\<forall>n. occupied occ n \<longrightarrow> n \<in> set (concat (components occ))"
  proof (intro allI impI)
    fix n assume o: "occupied occ n"
    then have "(snd n, fst n) \<in> set startCells" by (simp add: set_startCells occupied_def)
    with i(2) o have "n \<in> V" by (fastforce simp: occupied_def)
    with V c show "n \<in> set (concat (components occ))" by simp
  qed
qed

lemma components_partition:
  "distinct (concat (components occ))"
  "set (concat (components occ)) = {n. occupied occ n}"
  "[] \<notin> set (components occ)"
  using components_inv [of occ] by (auto simp: scanInv_def)

lemma components_closed:
  "C \<in> set (components occ) \<Longrightarrow> closedIn occ (set C)"
  using components_inv(1) [of occ] by (auto simp: scanInv_def)

lemma belowInComp_iff: "belowInComp C c r = ((c, r) \<in> set C)"
  by (induction C) (auto simp: belowInComp_def)

lemma supportedLoop_iff:
  "supportedLoop occ pl pr pt pb C ps = (\<exists>p \<in> set ps. supportRule occ pl pr pt pb C p)"
proof (induction ps)
  case Nil
  show ?case by simp
next
  case (Cons p ps)
  define g where "g = (snd p = ROWS - 1)"
  define e where "e = (snd p + 1 < ROWS \<and> occ (snd p + 1) (fst p) \<and> (fst p, snd p + 1) \<notin> set C)"
  define u where "u = (snd p + 1 \<ge> pt \<and> snd p + 1 \<le> pb \<and> fst p \<ge> pl \<and> fst p \<le> pr)"
  have "supportedLoop occ pl pr pt pb C (p # ps)
      = (if g then True else if e then True else if u then True
         else supportedLoop occ pl pr pt pb C ps)"
    by (simp add: g_def e_def u_def belowInComp_iff Let_def)
  moreover have "supportRule occ pl pr pt pb C p = (g \<or> e \<or> u)"
    by (simp add: supportRule_def g_def e_def u_def)
  ultimately have "supportedLoop occ pl pr pt pb C (p # ps)
      = (supportRule occ pl pr pt pb C p \<or> supportedLoop occ pl pr pt pb C ps)"
    by simp
  with Cons.IH show ?case by simp
qed

lemma supported_iff:
  "supported occ pl pr pt pb C = (\<exists>p \<in> set C. supportRule occ pl pr pt pb C p)"
  by (simp add: supported_def supportedLoop_iff)

lemma below_nbr: "(fst p, snd p + 1) \<in> set (nbrs p)"
  by (simp add: nbrs_def dirs_def)

lemma closed_below:
  assumes "closedIn occ (set C)" "p \<in> set C" "occupied occ p" "snd p + 1 < ROWS" "occ (snd p + 1) (fst p)"
  shows "(fst p, snd p + 1) \<in> set C"
proof -
  have "occupied occ (fst p, snd p + 1)" using assms(3,4,5) by (auto simp: occupied_def grid_def)
  with assms(1,2) below_nbr [of p] show ?thesis unfolding closedIn_def by blast
qed

lemma component_occupied: "C \<in> set (components occ) \<Longrightarrow> p \<in> set C \<Longrightarrow> occupied occ p"
  using components_partition(2) [of occ] by auto

lemma component_below:
  assumes "C \<in> set (components occ)" "p \<in> set C" "snd p + 1 < ROWS" "occ (snd p + 1) (fst p)"
  shows "(fst p, snd p + 1) \<in> set C"
  using closed_below [OF components_closed [OF assms(1)] assms(2) component_occupied [OF assms(1,2)] assms(3,4)] .

lemma component_supported_iff:
  assumes "C \<in> set (components occ)"
  shows "supported occ pl pr pt pb C =
    (\<exists>p \<in> set C. snd p = ROWS - 1
        \<or> (snd p + 1 \<ge> pt \<and> snd p + 1 \<le> pb \<and> fst p \<ge> pl \<and> fst p \<le> pr))"
  using component_below [OF assms] by (auto simp: supported_iff supportRule_def)

lemma resolveCell_collect:
  "resolveCell occ typeAt v pl pr pt pb r0 c0
      (V, NS @ emitAll occ typeAt pl pr pt pb comps, FS @ shapeAll occ typeAt v pl pr pt pb comps)
   = (case collectCell occ r0 c0 (V, comps) of (V', comps') \<Rightarrow>
        (V', NS @ emitAll occ typeAt pl pr pt pb comps', FS @ shapeAll occ typeAt v pl pr pt pb comps'))"
  by (auto simp: resolveCell_def collectCell_def emitAll_def shapeAll_def split: prod.splits)

lemma resolve_fold_collect:
  "foldl (\<lambda>st rc. resolveCell occ typeAt v pl pr pt pb (fst rc) (snd rc) st)
      (V, NS @ emitAll occ typeAt pl pr pt pb comps, FS @ shapeAll occ typeAt v pl pr pt pb comps) xs
   = (case foldl (\<lambda>st rc. collectCell occ (fst rc) (snd rc) st) (V, comps) xs of (V', comps') \<Rightarrow>
        (V', NS @ emitAll occ typeAt pl pr pt pb comps', FS @ shapeAll occ typeAt v pl pr pt pb comps'))"
proof (induction xs arbitrary: V comps)
  case Nil
  then show ?case by simp
next
  case (Cons x xs)
  obtain V1 comps1 where c: "collectCell occ (fst x) (snd x) (V, comps) = (V1, comps1)"
    by (cases "collectCell occ (fst x) (snd x) (V, comps)")
  show ?case
    by (simp add: resolveCell_collect c Cons.IH)
qed

lemma resolve_components:
  "resolveFloatingClusters blocks shapes v pl pr pt pb =
     (if blocks = [] then (blocks, shapes)
      else (emitAll (buildOcc blocks) (buildTypeAt blocks) pl pr pt pb (components (buildOcc blocks)),
            shapes @ shapeAll (buildOcc blocks) (buildTypeAt blocks) v pl pr pt pb (components (buildOcc blocks))))"
proof -
  let ?occ = "buildOcc blocks" and ?t = "buildTypeAt blocks"
  have "foldl (\<lambda>st rc. resolveCell ?occ ?t v pl pr pt pb (fst rc) (snd rc) st)
      ({}, [] @ emitAll ?occ ?t pl pr pt pb [], shapes @ shapeAll ?occ ?t v pl pr pt pb []) startCells
     = (case foldl (\<lambda>st rc. collectCell ?occ (fst rc) (snd rc) st) ({}, []) startCells of (V', comps') \<Rightarrow>
        (V', [] @ emitAll ?occ ?t pl pr pt pb comps', shapes @ shapeAll ?occ ?t v pl pr pt pb comps'))"
    by (rule resolve_fold_collect)
  then show ?thesis
    by (simp add: resolveFloatingClusters_def components_flat startCells_def foldl_nested
        emitAll_def shapeAll_def Let_def split: prod.splits)
qed

section \<open>The partition property\<close>

lemma buildOcc_iff:
  "buildOcc blocks r c = (\<exists>b \<in> set blocks. (col b, row b) \<in> grid \<and> row b = r \<and> col b = c)"
  by (auto simp: buildOcc_def list_ex_iff grid_def)

lemma buildOcc_occupied: "occupied (buildOcc blocks) n = buildOcc blocks (snd n) (fst n)"
  by (cases n) (auto simp: occupied_def buildOcc_iff)

lemma components_disjoint:
  assumes "C \<in> set (components occ)" "D \<in> set (components occ)" "C \<noteq> D"
  shows "set C \<inter> set D = {}"
  using components_partition(1) [of occ] assms by (simp add: distinct_concat_iff)

lemma components_distinct:
  "distinct (components occ)" "C \<in> set (components occ) \<Longrightarrow> distinct C"
  using components_partition(1,3) [of occ] by (simp_all add: distinct_concat_iff)

text \<open>
  C3: the components collected by the traversal partition the occupied cells of the derived
  occupancy grid: no component is empty or repeats a cell, two different components share no
  cell, and a cell lies in some component exactly when it is occupied. The list \<open>components\<close>
  is the one the resolver classifies (\<open>resolve_components\<close>).
\<close>

theorem components_partition_occupied:
  "(\<forall>C \<in> set (components (buildOcc blocks)). C \<noteq> [] \<and> distinct C)
   \<and> distinct (components (buildOcc blocks))
   \<and> (\<forall>C \<in> set (components (buildOcc blocks)). \<forall>D \<in> set (components (buildOcc blocks)).
         C \<noteq> D \<longrightarrow> set C \<inter> set D = {})
   \<and> (\<forall>c r. (\<exists>C \<in> set (components (buildOcc blocks)). (c, r) \<in> set C) = buildOcc blocks r c)"
proof -
  let ?comps = "components (buildOcc blocks)"
  have 1: "\<forall>C \<in> set ?comps. C \<noteq> [] \<and> distinct C"
  proof
    fix C assume C: "C \<in> set ?comps"
    with components_partition(3) [of "buildOcc blocks"] have "C \<noteq> []" by metis
    with components_distinct(2) [OF C] show "C \<noteq> [] \<and> distinct C" by simp
  qed
  have 2: "\<forall>C \<in> set ?comps. \<forall>D \<in> set ?comps. C \<noteq> D \<longrightarrow> set C \<inter> set D = {}"
    by (intro ballI impI) (rule components_disjoint)
  have d: "distinct ?comps" by (rule components_distinct(1))
  have 3: "\<forall>c r. (\<exists>C \<in> set ?comps. (c, r) \<in> set C) = buildOcc blocks r c"
  proof (intro allI)
    fix c r
    have "(\<exists>C \<in> set ?comps. (c, r) \<in> set C) = ((c, r) \<in> set (concat ?comps))" by auto
    also have "\<dots> = occupied (buildOcc blocks) (c, r)"
      using components_partition(2) [of "buildOcc blocks"] by blast
    finally show "(\<exists>C \<in> set ?comps. (c, r) \<in> set C) = buildOcc blocks r c"
      by (simp add: buildOcc_occupied)
  qed
  show ?thesis by (rule conjI [OF 1 conjI [OF d conjI [OF 2 3]]])
qed

theorem components_partition_occupied_witness:
  "(\<exists>C \<in> set (components (buildOcc [\<lparr>col = 5, row = 3, type = NORMAL\<rparr>, \<lparr>col = 5, row = 4, type = BOMB\<rparr>])).
      (5, 4) \<in> set C)
   \<and> \<not> (\<exists>C \<in> set (components (buildOcc [\<lparr>col = 5, row = 3, type = NORMAL\<rparr>, \<lparr>col = 5, row = 4, type = BOMB\<rparr>])).
      (5, 5) \<in> set C)"
proof -
  let ?bs = "[\<lparr>col = 5, row = 3, type = NORMAL\<rparr>, \<lparr>col = 5, row = 4, type = BOMB\<rparr>]"
  have a: "buildOcc ?bs 4 5" and b: "\<not> buildOcc ?bs 5 5"
    by (simp_all add: buildOcc_def ROWS_def COLS_def SCREEN_HEIGHT_def SCREEN_WIDTH_def CELL_def)
  from components_partition_occupied [of ?bs] a b show ?thesis by blast
qed

section \<open>Support classification\<close>

lemma ROWS_val: "ROWS = 20"
  by (simp add: ROWS_def SCREEN_HEIGHT_def CELL_def)

lemma COLS_val: "COLS = 16"
  by (simp add: COLS_def SCREEN_WIDTH_def CELL_def)

lemma upto_cols: "[0..15] = [0, 1, 2, 3, 4, 5, 6, 7, 8, 9, 10, 11, 12, 13, 14, 15 :: int]"
  by code_simp

lemma upto_rows:
  "[0..19] = [0, 1, 2, 3, 4, 5, 6, 7, 8, 9, 10, 11, 12, 13, 14, 15, 16, 17, 18, 19 :: int]"
  by code_simp

lemmas scan_eval = components_def collectCell_def buildOcc_def ROWS_val COLS_val upto_cols
  upto_rows dirs_def

lemma components_nonempty_blocks:
  assumes "C \<in> set (components (buildOcc blocks))"
  shows "blocks \<noteq> []"
proof
  assume "blocks = []"
  then have "\<And>n. \<not> occupied (buildOcc blocks) n" by (simp add: occupied_def buildOcc_def)
  with components_partition(2) [of "buildOcc blocks"] have "set (concat (components (buildOcc blocks))) = {}"
    by simp
  with assms have "C = []" by simp
  with assms components_partition(3) [of "buildOcc blocks"] show False by simp
qed

text \<open>
  C4: a component with a cell in the bottom row is supported. A component with no cell in the
  bottom row, no cell whose occupied cell directly below lies outside the component, and no
  cell whose below-row and column fall in the player's spans is not supported. The supported
  components are exactly those re-emitted as static blocks; each of the others becomes one
  falling shape.
\<close>

theorem support_classification:
  assumes "C \<in> set (components (buildOcc blocks))"
  shows "((\<exists>p \<in> set C. snd p = ROWS - 1) \<longrightarrow> supported (buildOcc blocks) pl pr pt pb C)
    \<and> ((\<forall>p \<in> set C. snd p \<noteq> ROWS - 1
            \<and> \<not> (buildOcc blocks (snd p + 1) (fst p) \<and> (fst p, snd p + 1) \<notin> set C)
            \<and> \<not> (pt \<le> snd p + 1 \<and> snd p + 1 \<le> pb \<and> pl \<le> fst p \<and> fst p \<le> pr))
         \<longrightarrow> \<not> supported (buildOcc blocks) pl pr pt pb C)
    \<and> resolveFloatingClusters blocks shapes v pl pr pt pb =
        (concat (map (emitBlocks (buildTypeAt blocks))
           (filter (supported (buildOcc blocks) pl pr pt pb) (components (buildOcc blocks)))),
         shapes @ map (makeShape v (buildTypeAt blocks))
           (filter (\<lambda>D. \<not> supported (buildOcc blocks) pl pr pt pb D) (components (buildOcc blocks))))"
proof (intro conjI impI)
  assume "\<exists>p \<in> set C. snd p = ROWS - 1"
  then show "supported (buildOcc blocks) pl pr pt pb C"
    by (auto simp: supported_iff supportRule_def)
next
  assume a: "\<forall>p \<in> set C. snd p \<noteq> ROWS - 1
            \<and> \<not> (buildOcc blocks (snd p + 1) (fst p) \<and> (fst p, snd p + 1) \<notin> set C)
            \<and> \<not> (pt \<le> snd p + 1 \<and> snd p + 1 \<le> pb \<and> pl \<le> fst p \<and> fst p \<le> pr)"
  show "\<not> supported (buildOcc blocks) pl pr pt pb C"
  proof
    assume "supported (buildOcc blocks) pl pr pt pb C"
    then obtain p where p: "p \<in> set C" "supportRule (buildOcc blocks) pl pr pt pb C p"
      by (auto simp: supported_iff)
    from a p(1) have "snd p \<noteq> ROWS - 1"
      "\<not> (buildOcc blocks (snd p + 1) (fst p) \<and> (fst p, snd p + 1) \<notin> set C)"
      "\<not> (pt \<le> snd p + 1 \<and> snd p + 1 \<le> pb \<and> pl \<le> fst p \<and> fst p \<le> pr)" by blast+
    with p(2) show False unfolding supportRule_def by blast
  qed
next
  from components_nonempty_blocks [OF assms] show "resolveFloatingClusters blocks shapes v pl pr pt pb =
        (concat (map (emitBlocks (buildTypeAt blocks))
           (filter (supported (buildOcc blocks) pl pr pt pb) (components (buildOcc blocks)))),
         shapes @ map (makeShape v (buildTypeAt blocks))
           (filter (\<lambda>D. \<not> supported (buildOcc blocks) pl pr pt pb D) (components (buildOcc blocks))))"
    by (simp add: resolve_components emitAll_def shapeAll_def)
qed

theorem support_classification_witness:
  "supported (buildOcc [\<lparr>col = 5, row = 19, type = NORMAL\<rparr>]) 8 8 18 18 [(5, 19)]
   \<and> \<not> supported (buildOcc [\<lparr>col = 5, row = 3, type = NORMAL\<rparr>, \<lparr>col = 5, row = 4, type = BOMB\<rparr>])
        8 8 18 18 [(5, 3), (5, 4)]"
proof -
  let ?b1 = "[\<lparr>col = 5, row = 19, type = NORMAL\<rparr>]"
  let ?b2 = "[\<lparr>col = 5, row = 3, type = NORMAL\<rparr>, \<lparr>col = 5, row = 4, type = BOMB\<rparr>]"
  have c1: "[(5, 19)] \<in> set (components (buildOcc ?b1))" by (simp add: scan_eval)
  have c2: "[(5, 3), (5, 4)] \<in> set (components (buildOcc ?b2))" by (simp add: scan_eval)
  have g: "\<exists>p \<in> set [(5, 19) :: SDL_Point]. snd p = ROWS - 1" by (simp add: ROWS_val)
  have f: "\<forall>p \<in> set [(5, 3), (5, 4) :: SDL_Point]. snd p \<noteq> ROWS - 1
            \<and> \<not> (buildOcc ?b2 (snd p + 1) (fst p) \<and> (fst p, snd p + 1) \<notin> set [(5, 3), (5, 4)])
            \<and> \<not> ((18::int) \<le> snd p + 1 \<and> snd p + 1 \<le> 18 \<and> (8::int) \<le> fst p \<and> fst p \<le> 8)"
    by (simp add: ROWS_val COLS_val buildOcc_def)
  from support_classification [OF c1, where pl = 8 and pr = 8 and pt = 18 and pb = 18] g
    support_classification [OF c2, where pl = 8 and pr = 8 and pt = 18 and pb = 18] f
  show ?thesis by blast
qed

text \<open>
  C10: in a component found by the traversal, a cell whose cell directly below is occupied
  has that cell in the component, so the search \<open>belowInComp\<close> of rule 2 always succeeds and
  rule 2 never reports support: the classification is that of the ground rule and the player
  rule alone.
\<close>

theorem external_support_never_fires:
  assumes "C \<in> set (components (buildOcc blocks))"
  shows "(\<forall>p \<in> set C. snd p + 1 < ROWS \<and> buildOcc blocks (snd p + 1) (fst p)
            \<longrightarrow> belowInComp C (fst p) (snd p + 1))
    \<and> supported (buildOcc blocks) pl pr pt pb C =
        (\<exists>p \<in> set C. snd p = ROWS - 1
            \<or> (snd p + 1 \<ge> pt \<and> snd p + 1 \<le> pb \<and> fst p \<ge> pl \<and> fst p \<le> pr))"
proof
  show "\<forall>p \<in> set C. snd p + 1 < ROWS \<and> buildOcc blocks (snd p + 1) (fst p)
            \<longrightarrow> belowInComp C (fst p) (snd p + 1)"
    using component_below [OF assms] by (simp add: belowInComp_iff)
  show "supported (buildOcc blocks) pl pr pt pb C =
        (\<exists>p \<in> set C. snd p = ROWS - 1
            \<or> (snd p + 1 \<ge> pt \<and> snd p + 1 \<le> pb \<and> fst p \<ge> pl \<and> fst p \<le> pr))"
    by (rule component_supported_iff [OF assms])
qed

theorem external_support_never_fires_witness:
  "belowInComp [(5, 3), (5, 4)] 5 4
   \<and> \<not> supported (buildOcc [\<lparr>col = 5, row = 3, type = NORMAL\<rparr>, \<lparr>col = 5, row = 4, type = BOMB\<rparr>])
        8 8 18 18 [(5, 3), (5, 4)]"
proof -
  let ?b2 = "[\<lparr>col = 5, row = 3, type = NORMAL\<rparr>, \<lparr>col = 5, row = 4, type = BOMB\<rparr>]"
  have c2: "[(5, 3), (5, 4)] \<in> set (components (buildOcc ?b2))" by (simp add: scan_eval)
  have o: "snd (5 :: int, 3 :: int) + 1 < ROWS \<and> buildOcc ?b2 (snd (5 :: int, 3 :: int) + 1) (fst (5 :: int, 3 :: int))"
    by (simp add: ROWS_val COLS_val buildOcc_def)
  have n: "\<not> (\<exists>p \<in> set [(5, 3), (5, 4) :: SDL_Point]. snd p = ROWS - 1
            \<or> (snd p + 1 \<ge> 18 \<and> snd p + 1 \<le> 18 \<and> fst p \<ge> 8 \<and> fst p \<le> 8))"
    by (simp add: ROWS_val)
  from external_support_never_fires [OF c2, where pl = 8 and pr = 8 and pt = 18 and pb = 18] o n show ?thesis by auto
qed

section \<open>Idempotence of cluster resolution\<close>

lemma push_fold_sim:
  assumes "\<forall>n \<in> set ns. (occupied occ n \<and> n \<notin> v) = (occupied occ' n \<and> n \<notin> w)"
  shows "\<exists>new. foldl (push occ) (v, q) ns = (v \<union> set new, q @ new)
             \<and> foldl (push occ') (w, q) ns = (w \<union> set new, q @ new)"
  using assms
proof (induction ns arbitrary: v w q)
  case Nil
  show ?case by (rule exI [of _ "[]"]) simp
next
  case (Cons n ns)
  show ?case
  proof (cases "occupied occ n \<and> n \<notin> v")
    case True
    with Cons.prems have T': "occupied occ' n \<and> n \<notin> w" by simp
    from True have 1: "push occ (v, q) n = (insert n v, q @ [n])" by (simp add: push_def)
    from T' have 2: "push occ' (w, q) n = (insert n w, q @ [n])" by (simp add: push_def)
    have "\<forall>m \<in> set ns. (occupied occ m \<and> m \<notin> insert n v) = (occupied occ' m \<and> m \<notin> insert n w)"
      using Cons.prems by auto
    from Cons.IH [OF this, of "q @ [n]"] obtain new where
      new: "foldl (push occ) (insert n v, q @ [n]) ns = (insert n v \<union> set new, (q @ [n]) @ new)"
        "foldl (push occ') (insert n w, q @ [n]) ns = (insert n w \<union> set new, (q @ [n]) @ new)"
      by blast
    show ?thesis
      by (rule exI [of _ "n # new"]) (simp add: 1 2 new)
  next
    case False
    with Cons.prems have F': "\<not> (occupied occ' n \<and> n \<notin> w)" by simp
    from False have 1: "push occ (v, q) n = (v, q)" by (auto simp add: push_def)
    from F' have 2: "push occ' (w, q) n = (w, q)" by (auto simp add: push_def)
    have "\<forall>m \<in> set ns. (occupied occ m \<and> m \<notin> v) = (occupied occ' m \<and> m \<notin> w)"
      using Cons.prems by auto
    from Cons.IH [OF this, of q] obtain new where
      new: "foldl (push occ) (v, q) ns = (v \<union> set new, q @ new)"
        "foldl (push occ') (w, q) ns = (w \<union> set new, q @ new)"
      by blast
    show ?thesis
      by (rule exI [of _ new]) (simp add: 1 2 new)
  qed
qed

lemma bfs_cells_prefix:
  assumes "bfs occ q v cs0 = (cs', v')"
  shows "set cs0 \<union> set q \<subseteq> set cs'"
  using bfs_result [OF assms] by auto

lemma bfs_sim:
  assumes "bfs occ q v cs0 = (cs', v')"
    and "\<forall>p \<in> set cs'. \<forall>n \<in> set (nbrs p). (occupied occ n \<and> n \<notin> v) = (occupied occ' n \<and> n \<notin> w)"
  shows "\<exists>new. cs' = cs0 @ q @ new \<and> v' = v \<union> set new \<and> bfs occ' q w cs0 = (cs', w \<union> set new)"
  using assms
proof (induction occ q v cs0 arbitrary: w rule: bfs.induct)
  case (1 occ visited cells)
  then show ?case by simp
next
  case (2 occ p q visited cells)
  from bfs_cells_prefix [OF "2.prems"(1)] have pin: "p \<in> set cs'" by simp
  with "2.prems"(2) have
    "\<forall>n \<in> set (nbrs p). (occupied occ n \<and> n \<notin> visited) = (occupied occ' n \<and> n \<notin> w)" by blast
  from push_fold_sim [OF this, of q] obtain n1 where
    n1: "foldl (push occ) (visited, q) (nbrs p) = (visited \<union> set n1, q @ n1)"
      "foldl (push occ') (w, q) (nbrs p) = (w \<union> set n1, q @ n1)" by blast
  then have e: "foldl (visit occ p) (visited, q) dirs = (visited \<union> set n1, q @ n1)"
    and e': "foldl (visit occ' p) (w, q) dirs = (w \<union> set n1, q @ n1)"
    by (simp_all add: expand_push)
  from "2.prems"(1) e have b: "bfs occ (q @ n1) (visited \<union> set n1) (cells @ [p]) = (cs', v')" by simp
  have a: "\<forall>p \<in> set cs'. \<forall>n \<in> set (nbrs p).
      (occupied occ n \<and> n \<notin> visited \<union> set n1) = (occupied occ' n \<and> n \<notin> w \<union> set n1)"
    using "2.prems"(2) by auto
  from "2.IH" [OF e [symmetric] b a] obtain n2 where
    n2: "cs' = (cells @ [p]) @ (q @ n1) @ n2" "v' = (visited \<union> set n1) \<union> set n2"
      "bfs occ' (q @ n1) (w \<union> set n1) (cells @ [p]) = (cs', (w \<union> set n1) \<union> set n2)" by blast
  show ?case
    by (rule exI [of _ "n1 @ n2"]) (use n2 e' in auto)
qed

lemma collectCell_prefix:
  "\<exists>more. snd (collectCell occ r0 c0 (V, comps)) = comps @ more"
  by (auto simp: collectCell_def split: prod.splits)

lemma collect_fold_prefix:
  "\<exists>more. snd (foldl (\<lambda>st rc. collectCell occ (fst rc) (snd rc) st) (V, comps) xs) = comps @ more"
proof (induction xs arbitrary: V comps)
  case Nil
  show ?case by simp
next
  case (Cons x xs)
  obtain V1 comps1 where c: "collectCell occ (fst x) (snd x) (V, comps) = (V1, comps1)"
    by (cases "collectCell occ (fst x) (snd x) (V, comps)")
  from collectCell_prefix [of occ "fst x" "snd x" V comps] c obtain m1 where "comps1 = comps @ m1"
    by auto
  moreover from Cons.IH [of V1 comps1] obtain m2 where
    "snd (foldl (\<lambda>st rc. collectCell occ (fst rc) (snd rc) st) (V1, comps1) xs) = comps1 @ m2" by blast
  ultimately show ?case using c by simp
qed

lemma restrict_facts:
  assumes inv: "scanInv occ Vf compsf" and U: "U = \<Union> (set ` {C \<in> set compsf. P C})"
  shows "\<forall>n \<in> U. occupied occ n"
    and "\<forall>C \<in> set compsf. P C \<longrightarrow> set C \<subseteq> U"
    and "\<forall>C \<in> set compsf. \<not> P C \<longrightarrow> set C \<inter> U = {}"
proof -
  from inv have V: "Vf = set (concat compsf)" and d: "distinct (concat compsf)"
    and o: "\<forall>n \<in> Vf. occupied occ n" by (simp_all add: scanInv_def)
  show "\<forall>n \<in> U. occupied occ n"
  proof
    fix n assume "n \<in> U"
    with U obtain C where "C \<in> set compsf" "n \<in> set C" by blast
    then have "n \<in> Vf" using V by auto
    with o show "occupied occ n" by blast
  qed
  show "\<forall>C \<in> set compsf. P C \<longrightarrow> set C \<subseteq> U" using U by blast
  show "\<forall>C \<in> set compsf. \<not> P C \<longrightarrow> set C \<inter> U = {}"
  proof (intro ballI impI)
    fix C assume C: "C \<in> set compsf" "\<not> P C"
    show "set C \<inter> U = {}"
    proof (rule ccontr)
      assume "set C \<inter> U \<noteq> {}"
      then obtain n where n: "n \<in> set C" "n \<in> U" by blast
      with U obtain D where D: "D \<in> set compsf" "P D" "n \<in> set D" by blast
      with C have "C \<noteq> D" by blast
      with d C(1) D(1) have "set C \<inter> set D = {}" by (simp add: distinct_concat_iff)
      with n D show False by blast
    qed
  qed
qed

lemma collectCell_sim:
  assumes inv: "scanInv occ V comps" and g: "(c0, r0) \<in> grid"
    and c: "collectCell occ r0 c0 (V, comps) = (V1, comps1)"
    and sub: "set comps1 \<subseteq> set compsf"
    and Uo: "\<forall>n \<in> U. occupied occ n"
    and UP: "\<forall>C \<in> set compsf. P C \<longrightarrow> set C \<subseteq> U"
    and UN: "\<forall>C \<in> set compsf. \<not> P C \<longrightarrow> set C \<inter> U = {}"
    and occ': "occ' = (\<lambda>r c. (c, r) \<in> U)"
  shows "collectCell occ' r0 c0 (V \<inter> U, filter P comps) = (V1 \<inter> U, filter P comps1)"
proof (cases "\<not> occ r0 c0 \<or> (c0, r0) \<in> V")
  case True
  with c have e: "V1 = V" "comps1 = comps" by (auto simp: collectCell_def)
  have "\<not> occ' r0 c0 \<or> (c0, r0) \<in> V \<inter> U"
  proof (cases "(c0, r0) \<in> U")
    case True
    with Uo have "occupied occ (c0, r0)" by blast
    then have "occ r0 c0" by (simp add: occupied_def)
    with \<open>\<not> occ r0 c0 \<or> (c0, r0) \<in> V\<close> True show ?thesis by blast
  next
    case False
    then show ?thesis by (simp add: occ')
  qed
  then show ?thesis using e by (auto simp: collectCell_def)
next
  case False
  let ?s = "(c0, r0)"
  obtain C V2 where b: "bfs occ [?s] (insert ?s V) [] = (C, V2)"
    by (cases "bfs occ [?s] (insert ?s V) []")
  with c False have e: "V1 = V2" "comps1 = comps @ [C]" by (auto simp: collectCell_def)
  from False g have so: "occupied occ ?s" "?s \<notin> V" by (auto simp: occupied_def)
  from bfs_start [OF inv so b] have inv1: "scanInv occ V2 (comps @ [C])" and sC: "?s \<in> set C"
    and V2: "V2 = V \<union> set C" by auto
  from inv1 have clC: "closedIn occ (set C)" by (simp add: scanInv_def)
  from inv1 inv have disj: "set C \<inter> V = {}" by (auto simp: scanInv_def)
  from e sub have Cf: "C \<in> set compsf" by auto
  have occU: "\<And>n. occupied occ' n = (n \<in> U)"
    using Uo by (auto simp: occupied_def occ')
  show ?thesis
  proof (cases "P C")
    case True
    with UP Cf have CU: "set C \<subseteq> U" by blast
    have agree: "\<forall>p \<in> set C. \<forall>n \<in> set (nbrs p).
        (occupied occ n \<and> n \<notin> insert ?s V) = (occupied occ' n \<and> n \<notin> insert ?s (V \<inter> U))"
    proof (intro ballI)
      fix p n assume p: "p \<in> set C" and n: "n \<in> set (nbrs p)"
      show "(occupied occ n \<and> n \<notin> insert ?s V) = (occupied occ' n \<and> n \<notin> insert ?s (V \<inter> U))"
      proof
        assume a: "occupied occ n \<and> n \<notin> insert ?s V"
        with clC p n have "n \<in> set C" unfolding closedIn_def by blast
        with CU have "n \<in> U" by blast
        with a show "occupied occ' n \<and> n \<notin> insert ?s (V \<inter> U)" by (simp add: occU)
      next
        assume a: "occupied occ' n \<and> n \<notin> insert ?s (V \<inter> U)"
        then have "n \<in> U" by (simp add: occU)
        with Uo a show "occupied occ n \<and> n \<notin> insert ?s V" by auto
      qed
    qed
    from bfs_sim [OF b agree] obtain new where new: "C = [] @ [?s] @ new" "V2 = insert ?s V \<union> set new"
      "bfs occ' [?s] (insert ?s (V \<inter> U)) [] = (C, insert ?s (V \<inter> U) \<union> set new)" by blast
    have "insert ?s (V \<inter> U) \<union> set new = V2 \<inter> U" using new(1) V2 CU by auto
    with new(3) have b': "bfs occ' [?s] (insert ?s (V \<inter> U)) [] = (C, V2 \<inter> U)" by simp
    from sC CU have "occ' r0 c0" by (auto simp: occ')
    moreover from so have "?s \<notin> V \<inter> U" by simp
    ultimately show ?thesis using b' e True by (simp add: collectCell_def)
  next
    case False
    with UN Cf have CU: "set C \<inter> U = {}" by blast
    with sC have "\<not> occ' r0 c0" by (auto simp: occ')
    moreover have "V2 \<inter> U = V \<inter> U" using V2 CU by auto
    ultimately show ?thesis using e False by (simp add: collectCell_def)
  qed
qed

lemma collect_fold_sim:
  assumes U: "U = \<Union> (set ` {C \<in> set compsf. P C})" and occ': "occ' = (\<lambda>r c. (c, r) \<in> U)"
  shows "scanInv occ V comps \<Longrightarrow> set xs \<subseteq> set startCells
    \<Longrightarrow> foldl (\<lambda>st rc. collectCell occ (fst rc) (snd rc) st) (V, comps) xs = (Vf, compsf)
    \<Longrightarrow> foldl (\<lambda>st rc. collectCell occ' (fst rc) (snd rc) st) (V \<inter> U, filter P comps) xs
        = (Vf \<inter> U, filter P compsf)"
proof (induction xs arbitrary: V comps)
  case Nil
  then show ?case by simp
next
  case (Cons x xs)
  obtain V1 comps1 where c: "collectCell occ (fst x) (snd x) (V, comps) = (V1, comps1)"
    by (cases "collectCell occ (fst x) (snd x) (V, comps)")
  from Cons.prems(2) have g: "(snd x, fst x) \<in> grid" by (simp add: set_startCells)
  from collectCell_inv [OF Cons.prems(1) g c] have inv1: "scanInv occ V1 comps1" by simp
  from Cons.prems(3) c have f: "foldl (\<lambda>st rc. collectCell occ (fst rc) (snd rc) st) (V1, comps1) xs = (Vf, compsf)"
    by simp
  from Cons.prems(2) have xs: "set xs \<subseteq> set startCells" by simp
  from collect_fold_inv [OF inv1 xs f] have invf: "scanInv occ Vf compsf" by simp
  from collect_fold_prefix [of occ V1 comps1 xs] f have sub: "set comps1 \<subseteq> set compsf" by auto
  note rf = restrict_facts [OF invf U]
  from collectCell_sim [OF Cons.prems(1) g c sub rf occ']
  have "collectCell occ' (fst x) (snd x) (V \<inter> U, filter P comps) = (V1 \<inter> U, filter P comps1)" .
  with Cons.IH [OF inv1 xs f] show ?case by simp
qed

lemma components_restrict:
  assumes U: "U = \<Union> (set ` {C \<in> set (components occ). P C})"
  shows "components (\<lambda>r c. (c, r) \<in> U) = filter P (components occ)"
proof -
  obtain Vf compsf where f: "foldl (\<lambda>st rc. collectCell occ (fst rc) (snd rc) st) ({}, []) startCells = (Vf, compsf)"
    by (cases "foldl (\<lambda>st rc. collectCell occ (fst rc) (snd rc) st) ({}, []) startCells")
  then have c: "components occ = compsf" by (simp add: components_flat)
  have i: "scanInv occ {} []" by (simp add: scanInv_def)
  from collect_fold_sim [OF U [unfolded c] refl i subset_refl f]
  have "components (\<lambda>r c. (c, r) \<in> U) = filter P compsf" by (simp add: components_flat)
  with c show ?thesis by simp
qed

lemma buildOcc_emit:
  assumes "\<forall>C \<in> set Cs. set C \<subseteq> grid"
  shows "buildOcc (concat (map (emitBlocks t) Cs)) r c = ((c, r) \<in> \<Union> (set ` set Cs))"
proof -
  have "buildOcc (concat (map (emitBlocks t) Cs)) r c
      = (\<exists>C \<in> set Cs. \<exists>p \<in> set C. p \<in> grid \<and> snd p = r \<and> fst p = c)"
    by (auto simp: buildOcc_iff emitBlocks_def)
  also have "\<dots> = (\<exists>C \<in> set Cs. (c, r) \<in> set C)"
    using assms by (metis prod.collapse fst_conv snd_conv subsetD)
  finally show ?thesis by simp
qed

lemma typeStep_apply:
  "typeStep t0 b r c = (if (col b, row b) \<in> grid \<and> row b = r \<and> col b = c then type b else t0 r c)"
  by (auto simp: typeStep_def grid_def)

lemma buildTypeAt_typeStep: "buildTypeAt bs = foldl typeStep (\<lambda>r c. NORMAL) bs"
  unfolding buildTypeAt_def typeStep_def ..

lemma typeAt_fold:
  assumes "\<forall>b \<in> set bs. type b = t (row b) (col b)"
  shows "foldl typeStep t0 bs r c
    = (if \<exists>b \<in> set bs. (col b, row b) \<in> grid \<and> row b = r \<and> col b = c then t r c else t0 r c)"
  using assms
proof (induction bs arbitrary: t0)
  case Nil
  show ?case by simp
next
  case (Cons b bs)
  then have tb: "type b = t (row b) (col b)" and rest: "\<forall>b \<in> set bs. type b = t (row b) (col b)"
    by simp_all
  define inbs where "inbs = (\<exists>b \<in> set bs. (col b, row b) \<in> grid \<and> row b = r \<and> col b = c)"
  define atb where "atb = ((col b, row b) \<in> grid \<and> row b = r \<and> col b = c)"
  have 1: "foldl typeStep t0 (b # bs) r c = (if inbs then t r c else typeStep t0 b r c)"
    using Cons.IH [OF rest, of "typeStep t0 b"] by (simp add: inbs_def)
  have 2: "typeStep t0 b r c = (if atb then t r c else t0 r c)"
    using tb by (auto simp: typeStep_apply atb_def)
  have 3: "(\<exists>b' \<in> set (b # bs). (col b', row b') \<in> grid \<and> row b' = r \<and> col b' = c) = (atb \<or> inbs)"
    by (simp add: inbs_def atb_def)
  show ?case unfolding 1 2 3 by simp
qed

lemma buildTypeAt_emit:
  assumes "(c, r) \<in> grid" "(c, r) \<in> set (concat Cs)"
  shows "buildTypeAt (concat (map (emitBlocks t) Cs)) r c = t r c"
proof -
  let ?bs = "concat (map (emitBlocks t) Cs)"
  let ?b = "\<lparr>col = c, row = r, type = t r c\<rparr>"
  have 1: "\<forall>b \<in> set ?bs. type b = t (row b) (col b)" by (auto simp: emitBlocks_def)
  from assms(2) obtain C where C: "C \<in> set Cs" "(c, r) \<in> set C" by auto
  from C(2) have "?b \<in> set (emitBlocks t C)" by (force simp: emitBlocks_def)
  with C(1) have "?b \<in> set ?bs" by auto
  moreover have "(col ?b, row ?b) \<in> grid \<and> row ?b = r \<and> col ?b = c" using assms(1) by simp
  ultimately have 2: "\<exists>b \<in> set ?bs. (col b, row b) \<in> grid \<and> row b = r \<and> col b = c" by blast
  show ?thesis
    unfolding buildTypeAt_typeStep using typeAt_fold [OF 1, of "\<lambda>r c. NORMAL" r c] 2 by simp
qed

lemma emitBlocks_cong:
  "(\<forall>p \<in> set C. t (snd p) (fst p) = t' (snd p) (fst p)) \<Longrightarrow> emitBlocks t C = emitBlocks t' C"
  by (simp add: emitBlocks_def)

lemma supported_other_occ:
  assumes C: "C \<in> set (components occ)" and s: "supported occ pl pr pt pb C"
  shows "supported occ' pl pr pt pb C"
proof -
  from s component_supported_iff [OF C, of pl pr pt pb] obtain p where p: "p \<in> set C"
    "snd p = ROWS - 1 \<or> (snd p + 1 \<ge> pt \<and> snd p + 1 \<le> pb \<and> fst p \<ge> pl \<and> fst p \<le> pr)" by blast
  then have "supportRule occ' pl pr pt pb C p" unfolding supportRule_def by blast
  with p(1) show ?thesis unfolding supported_iff by blast
qed

lemma filter_all: "\<forall>x \<in> set xs. Q x \<Longrightarrow> filter Q xs = xs"
  by (induction xs) simp_all

lemma filter_none: "\<forall>x \<in> set xs. Q x \<Longrightarrow> filter (\<lambda>x. \<not> Q x) xs = []"
  by (induction xs) simp_all

lemma resolve_idem:
  assumes r: "resolveFloatingClusters blocks shapes v pl pr pt pb = (S1, F1)"
  shows "resolveFloatingClusters S1 F1 v pl pr pt pb = (S1, F1)"
proof (cases "blocks = [] \<or> S1 = []")
  case True
  then show ?thesis
  proof
    assume "blocks = []"
    with r have "S1 = []" by (simp add: resolveFloatingClusters_def)
    then show ?thesis by (simp add: resolveFloatingClusters_def)
  next
    assume "S1 = []"
    then show ?thesis by (simp add: resolveFloatingClusters_def)
  qed
next
  case False
  let ?occ = "buildOcc blocks" and ?t = "buildTypeAt blocks"
  let ?comps = "components ?occ"
  let ?supp = "supported ?occ pl pr pt pb"
  define Cs where "Cs = filter ?supp ?comps"
  define U where "U = \<Union> (set ` {C \<in> set ?comps. ?supp C})"
  have Cs: "\<And>C. C \<in> set Cs \<Longrightarrow> C \<in> set ?comps \<and> ?supp C" by (simp add: Cs_def)
  have UCs: "U = \<Union> (set ` set Cs)" by (simp add: U_def Cs_def)
  from r False have S1: "S1 = concat (map (emitBlocks ?t) Cs)"
    by (simp add: resolve_components emitAll_def Cs_def)
  have ingrid: "\<forall>C \<in> set Cs. set C \<subseteq> grid"
  proof (intro ballI subsetI)
    fix C p assume "C \<in> set Cs" "p \<in> set C"
    with Cs component_occupied have "occupied ?occ p" by blast
    then show "p \<in> grid" by (simp add: occupied_def)
  qed
  have occ1: "buildOcc S1 = (\<lambda>r c. (c, r) \<in> U)"
    unfolding S1 UCs by (intro ext) (rule buildOcc_emit [OF ingrid])
  have comps1: "components (buildOcc S1) = Cs"
    unfolding occ1 Cs_def by (rule components_restrict [OF U_def])
  have supp1: "\<forall>C \<in> set Cs. supported (buildOcc S1) pl pr pt pb C"
  proof
    fix C assume "C \<in> set Cs"
    with Cs have "C \<in> set ?comps" "?supp C" by blast+
    then show "supported (buildOcc S1) pl pr pt pb C" by (rule supported_other_occ)
  qed
  have emit1: "\<forall>C \<in> set Cs. emitBlocks (buildTypeAt S1) C = emitBlocks ?t C"
  proof
    fix C assume C: "C \<in> set Cs"
    show "emitBlocks (buildTypeAt S1) C = emitBlocks ?t C"
    proof (rule emitBlocks_cong, rule ballI)
      fix p assume p: "p \<in> set C"
      with C ingrid have "(fst p, snd p) \<in> grid" by auto
      moreover from p C have "(fst p, snd p) \<in> set (concat Cs)" by auto
      ultimately show "buildTypeAt S1 (snd p) (fst p) = ?t (snd p) (fst p)"
        unfolding S1 by (rule buildTypeAt_emit)
    qed
  qed
  have f1: "filter (supported (buildOcc S1) pl pr pt pb) Cs = Cs"
    by (rule filter_all [OF supp1])
  have f2: "filter (\<lambda>C. \<not> supported (buildOcc S1) pl pr pt pb C) Cs = []"
    by (rule filter_none [OF supp1])
  have "map (emitBlocks (buildTypeAt S1)) Cs = map (emitBlocks ?t) Cs"
    using emit1 by simp
  then have "concat (map (emitBlocks (buildTypeAt S1)) Cs) = concat (map (emitBlocks ?t) Cs)"
    by (rule arg_cong)
  then have e: "concat (map (emitBlocks (buildTypeAt S1)) Cs) = S1" unfolding S1 [symmetric] .
  have "resolveFloatingClusters S1 F1 v pl pr pt pb
      = (emitAll (buildOcc S1) (buildTypeAt S1) pl pr pt pb Cs,
         F1 @ shapeAll (buildOcc S1) (buildTypeAt S1) v pl pr pt pb Cs)"
    using False by (simp add: resolve_components [of S1] comps1)
  also have "\<dots> = (S1, F1)"
    unfolding emitAll_def shapeAll_def f1 f2 e by simp
  finally show ?thesis .
qed

text \<open>
  C5: running the resolver on its own output, with the same fall speed and player footprint,
  returns that output: the static list is unchanged and no shape is appended.
\<close>

theorem resolve_idempotent:
  "resolveFloatingClusters (fst (resolveFloatingClusters blocks shapes v pl pr pt pb))
      (snd (resolveFloatingClusters blocks shapes v pl pr pt pb)) v pl pr pt pb
   = resolveFloatingClusters blocks shapes v pl pr pt pb"
proof -
  obtain S1 F1 where r: "resolveFloatingClusters blocks shapes v pl pr pt pb = (S1, F1)"
    by (cases "resolveFloatingClusters blocks shapes v pl pr pt pb")
  from resolve_idem [OF r] r show ?thesis by simp
qed

lemma resolve_example:
  "resolveFloatingClusters
     [\<lparr>col = 5, row = 3, type = NORMAL\<rparr>, \<lparr>col = 4, row = 19, type = FREEZE\<rparr>,
      \<lparr>col = 5, row = 4, type = BOMB\<rparr>] [] 220 8 8 18 18
   = ([\<lparr>col = 4, row = 19, type = FREEZE\<rparr>],
      [\<lparr>sx = 150, sy = 90, speed = 220, cells = [(0, 0), (0, 1)], types = [NORMAL, BOMB]\<rparr>])"
  by (simp add: resolve_components emitAll_def shapeAll_def scan_eval supported_def
      belowInComp_def emitBlocks_def makeShape_def buildTypeAt_def CELL_def)

theorem resolve_idempotent_witness:
  "resolveFloatingClusters [\<lparr>col = 4, row = 19, type = FREEZE\<rparr>]
     [\<lparr>sx = 150, sy = 90, speed = 220, cells = [(0, 0), (0, 1)], types = [NORMAL, BOMB]\<rparr>]
     220 8 8 18 18
   = ([\<lparr>col = 4, row = 19, type = FREEZE\<rparr>],
      [\<lparr>sx = 150, sy = 90, speed = 220, cells = [(0, 0), (0, 1)], types = [NORMAL, BOMB]\<rparr>])"
  using resolve_idempotent [of "[\<lparr>col = 5, row = 3, type = NORMAL\<rparr>,
      \<lparr>col = 4, row = 19, type = FREEZE\<rparr>, \<lparr>col = 5, row = 4, type = BOMB\<rparr>]" "[]" 220 8 8 18 18]
  by (simp only: resolve_example fst_conv snd_conv)

section \<open>Row clear\<close>

lemma fullRow_iff:
  "fullRow bs r = (0 \<le> r \<and> r < ROWS \<and> (\<forall>c. 0 \<le> c \<and> c < COLS \<longrightarrow> buildOcc bs r c))"
proof -
  have "\<And>c. 0 \<le> r \<and> r < ROWS \<Longrightarrow> 0 \<le> c \<and> c < COLS
      \<Longrightarrow> buildOcc bs r c = (\<exists>b \<in> set bs. col b = c \<and> row b = r)"
    by (auto simp: buildOcc_iff grid_def)
  then show ?thesis unfolding fullRow_def by blast
qed

lemma fullRowsOf_set: "set (fullRowsOf bs) = {r. fullRow bs r}"
  by (auto simp: fullRowsOf_def fullRow_iff list_all_iff)

lemma fullRowsOf_sorted: "sorted (fullRowsOf bs)" "distinct (fullRowsOf bs)"
  unfolding fullRowsOf_def by (rule sorted_wrt_filter, rule sorted_upto) simp

lemma shift_count: "foldl (\<lambda>shift fr. if fr > k then shift + 1 else shift) n frs
    = n + int (length (filter (\<lambda>fr. fr > k) frs))"
  by (induction frs arbitrary: n) simp_all

lemma count_full:
  "int (length (filter (\<lambda>fr. fr > k) (fullRowsOf bs))) = int (card {r. fullRow bs r \<and> r > k})"
proof -
  have "distinct (filter (\<lambda>fr. fr > k) (fullRowsOf bs))" using fullRowsOf_sorted(2) by simp
  from distinct_card [OF this]
  have "length (filter (\<lambda>fr. fr > k) (fullRowsOf bs)) = card (set (filter (\<lambda>fr. fr > k) (fullRowsOf bs)))"
    by (rule sym)
  also have "set (filter (\<lambda>fr. fr > k) (fullRowsOf bs)) = {r. fullRow bs r \<and> r > k}"
    by (auto simp: fullRowsOf_set)
  finally show ?thesis by simp
qed

lemma rowClear_eq:
  "rowClear bs = map (\<lambda>b. b\<lparr>row := row b + int (card {r. fullRow bs r \<and> r > row b})\<rparr>)
                   (filter (\<lambda>b. \<not> fullRow bs (row b)) bs)"
proof (cases "bs = [] \<or> fullRowsOf bs = []")
  case True
  then have "rowClear bs = bs" by (auto simp: rowClear_def fullRowsOf_def Let_def)
  moreover from True have "\<And>r. \<not> fullRow bs r"
  proof
    assume "bs = []" then show "\<And>r. \<not> fullRow bs r"
      by (auto simp: fullRow_def COLS_val)
  next
    assume "fullRowsOf bs = []"
    then have "set (fullRowsOf bs) = {}" by simp
    then show "\<And>r. \<not> fullRow bs r" unfolding fullRowsOf_set by blast
  qed
  ultimately show ?thesis by (simp add: map_idI)
next
  case False
  have s: "sort (fullRowsOf bs) = fullRowsOf bs"
    using fullRowsOf_sorted(1) by (simp add: sorted_sort_id)
  from False have "rowClear bs =
      map (\<lambda>b. b\<lparr>row := row b + foldl (\<lambda>shift fr. if fr > row b then shift + 1 else shift) 0 (fullRowsOf bs)\<rparr>)
        (filter (\<lambda>b. row b \<notin> set (fullRowsOf bs)) bs)"
    unfolding rowClear_def fullRowsOf_def [symmetric] Let_def s by simp
  also have "\<dots> = map (\<lambda>b. b\<lparr>row := row b + int (card {r. fullRow bs r \<and> r > row b})\<rparr>)
        (filter (\<lambda>b. \<not> fullRow bs (row b)) bs)"
    by (simp add: shift_count count_full fullRowsOf_set)
  finally show ?thesis .
qed

text \<open>
  C6: the row-clear pass removes exactly the blocks of the full rows, and moves every surviving
  block down by the number of full rows strictly below it, counted on the rows as they were
  before the removal. This holds for every block list, with or without one block per cell.
\<close>

theorem row_clear_conservation:
  "rowClear bs = map (\<lambda>b. b\<lparr>row := row b + int (card {r. fullRow bs r \<and> r > row b})\<rparr>)
                   (filter (\<lambda>b. \<not> fullRow bs (row b)) bs)"
  by (rule rowClear_eq)

theorem row_clear_conservation_witness:
  "rowClear (\<lparr>col = 3, row = 5, type = BOMB\<rparr> # map (\<lambda>c. \<lparr>col = c, row = 10, type = NORMAL\<rparr>) [0..15])
   = [\<lparr>col = 3, row = 6, type = BOMB\<rparr>]"
proof -
  define bs where
    "bs = \<lparr>col = 3, row = 5, type = BOMB\<rparr> # map (\<lambda>c. \<lparr>col = c, row = 10, type = NORMAL\<rparr>) [0..15]"
  have "fullRowsOf bs = [10]"
    unfolding bs_def by (simp add: fullRowsOf_def buildOcc_def ROWS_val COLS_val upto_cols upto_rows)
  with fullRowsOf_set [of bs] have f: "\<And>r. fullRow bs r = (r = 10)" by auto
  have c: "{r. r = 10 \<and> r > (5::int)} = {10}" by auto
  have k: "filter (\<lambda>b. row b \<noteq> 10) bs = [\<lparr>col = 3, row = 5, type = BOMB\<rparr>]"
    unfolding bs_def by (simp add: upto_cols)
  from row_clear_conservation [of bs] have "rowClear bs = [\<lparr>col = 3, row = 6, type = BOMB\<rparr>]"
    by (simp add: f k c)
  then show ?thesis unfolding bs_def .
qed

section \<open>Breaking a block\<close>

lemma eraseFirstAt_None:
  "(eraseFirstAt tc tr bs = None) = (\<not> (\<exists>b \<in> set bs. col b = tc \<and> row b = tr))"
  by (induction bs) (auto split: option.splits)

lemma eraseFirstAt_Some:
  "eraseFirstAt tc tr bs = Some (t, bs') \<Longrightarrow>
   \<exists>xs b ys. bs = xs @ b # ys \<and> col b = tc \<and> row b = tr
      \<and> (\<forall>x \<in> set xs. \<not> (col x = tc \<and> row x = tr)) \<and> t = type b \<and> bs' = xs @ ys"
proof (induction bs arbitrary: t bs')
  case Nil
  then show ?case by simp
next
  case (Cons a bs)
  show ?case
  proof (cases "col a = tc \<and> row a = tr")
    case True
    with Cons.prems have "t = type a" "bs' = bs" by simp_all
    with True show ?thesis by (intro exI [of _ "[]"] exI [of _ a] exI [of _ bs]) simp
  next
    case False
    with Cons.prems obtain bs1 where e: "eraseFirstAt tc tr bs = Some (t, bs1)" "bs' = a # bs1"
      by (auto split: option.splits)
    from Cons.IH [OF e(1)] obtain xs b ys where x: "bs = xs @ b # ys" "col b = tc \<and> row b = tr"
      "\<forall>x \<in> set xs. \<not> (col x = tc \<and> row x = tr)" "t = type b" "bs1 = xs @ ys" by blast
    show ?thesis
      by (intro exI [of _ "a # xs"] exI [of _ b] exI [of _ ys]) (use x e False in auto)
  qed
qed

lemma erase_onePerCell:
  assumes "onePerCell (xs @ b # ys)" "col b = tc \<and> row b = tr"
  shows "xs @ ys = filter (\<lambda>x. \<not> (col x = tc \<and> row x = tr)) (xs @ b # ys)"
proof -
  from assms have "\<forall>x \<in> set xs \<union> set ys. \<not> (col x = tc \<and> row x = tr)"
    by (auto simp: onePerCell_def image_iff)
  then show ?thesis using assms(2) by (simp add: filter_id_conv)
qed

lemma breakAt_fail:
  assumes "cd > 0 \<or> tc < 0 \<or> tc \<ge> COLS \<or> tr < 0 \<or> tr \<ge> ROWS
     \<or> \<not> (\<exists>b \<in> set bs. col b = tc \<and> row b = tr)"
  shows "breakAt tc tr cd u bs = (False, cd, u, bs)"
proof (cases "cd > 0 \<or> tc < 0 \<or> tc \<ge> COLS \<or> tr < 0 \<or> tr \<ge> ROWS")
  case True
  then show ?thesis by (auto simp: breakAt_def)
next
  case False
  with assms have "eraseFirstAt tc tr bs = None" by (simp add: eraseFirstAt_None)
  then show ?thesis by (simp add: breakAt_def)
qed

lemma breakAt_success:
  assumes "\<not> cd > 0" "0 \<le> tc" "tc < COLS" "0 \<le> tr" "tr < ROWS"
    "\<exists>b \<in> set bs. col b = tc \<and> row b = tr"
  shows "\<exists>xs b ys. bs = xs @ b # ys \<and> col b = tc \<and> row b = tr
      \<and> (\<forall>x \<in> set xs. \<not> (col x = tc \<and> row x = tr))
      \<and> breakAt tc tr cd u bs = (True, ABILITY_CD, type b, xs @ ys)"
proof -
  from assms(6) obtain t bs' where e: "eraseFirstAt tc tr bs = Some (t, bs')"
    using eraseFirstAt_None [of tc tr bs] by (cases "eraseFirstAt tc tr bs") auto
  from eraseFirstAt_Some [OF e] obtain xs b ys where x: "bs = xs @ b # ys" "col b = tc \<and> row b = tr"
    "\<forall>x \<in> set xs. \<not> (col x = tc \<and> row x = tr)" "t = type b" "bs' = xs @ ys" by blast
  have "breakAt tc tr cd u bs = (True, ABILITY_CD, type b, xs @ ys)"
    using assms(1-5) e x(4,5) by (simp add: breakAt_def)
  with x show ?thesis by blast
qed

text \<open>
  C8: \<open>breakAt\<close> fails, leaving the static list, the cooldown and \<open>usedType\<close> as they were,
  when the cooldown is positive, the target is outside the grid, or no block is at the target.
  Otherwise it removes one block, the first one at the target (the only one there when the
  list has one block per cell), sets the cooldown to \<open>ABILITY_CD\<close>, returns true and yields
  the removed block's type.
\<close>

theorem breakAt_spec:
  "(cd > 0 \<or> tc < 0 \<or> tc \<ge> COLS \<or> tr < 0 \<or> tr \<ge> ROWS
      \<or> \<not> (\<exists>b \<in> set bs. col b = tc \<and> row b = tr)
    \<longrightarrow> breakAt tc tr cd u bs = (False, cd, u, bs))
   \<and> (\<not> cd > 0 \<and> 0 \<le> tc \<and> tc < COLS \<and> 0 \<le> tr \<and> tr < ROWS
      \<and> (\<exists>b \<in> set bs. col b = tc \<and> row b = tr)
    \<longrightarrow> (\<exists>xs b ys. bs = xs @ b # ys \<and> col b = tc \<and> row b = tr
          \<and> (\<forall>x \<in> set xs. \<not> (col x = tc \<and> row x = tr))
          \<and> breakAt tc tr cd u bs = (True, ABILITY_CD, type b, xs @ ys)
          \<and> (onePerCell bs \<longrightarrow> xs @ ys = filter (\<lambda>x. \<not> (col x = tc \<and> row x = tr)) bs)))"
proof (intro conjI impI)
  assume "cd > 0 \<or> tc < 0 \<or> tc \<ge> COLS \<or> tr < 0 \<or> tr \<ge> ROWS
      \<or> \<not> (\<exists>b \<in> set bs. col b = tc \<and> row b = tr)"
  then show "breakAt tc tr cd u bs = (False, cd, u, bs)" by (rule breakAt_fail)
next
  assume a: "\<not> cd > 0 \<and> 0 \<le> tc \<and> tc < COLS \<and> 0 \<le> tr \<and> tr < ROWS
      \<and> (\<exists>b \<in> set bs. col b = tc \<and> row b = tr)"
  then have "\<exists>xs b ys. bs = xs @ b # ys \<and> col b = tc \<and> row b = tr
      \<and> (\<forall>x \<in> set xs. \<not> (col x = tc \<and> row x = tr))
      \<and> breakAt tc tr cd u bs = (True, ABILITY_CD, type b, xs @ ys)"
    by (intro breakAt_success) simp_all
  then obtain xs b ys where x: "bs = xs @ b # ys" "col b = tc \<and> row b = tr"
      "\<forall>x \<in> set xs. \<not> (col x = tc \<and> row x = tr)"
      "breakAt tc tr cd u bs = (True, ABILITY_CD, type b, xs @ ys)" by blast
  have "onePerCell bs \<longrightarrow> xs @ ys = filter (\<lambda>x. \<not> (col x = tc \<and> row x = tr)) bs"
    using erase_onePerCell [of xs b ys tc tr] x(1,2) by simp
  with x show "\<exists>xs b ys. bs = xs @ b # ys \<and> col b = tc \<and> row b = tr
          \<and> (\<forall>x \<in> set xs. \<not> (col x = tc \<and> row x = tr))
          \<and> breakAt tc tr cd u bs = (True, ABILITY_CD, type b, xs @ ys)
          \<and> (onePerCell bs \<longrightarrow> xs @ ys = filter (\<lambda>x. \<not> (col x = tc \<and> row x = tr)) bs)"
    by blast
qed

theorem breakAt_spec_witness:
  "breakAt 3 13 (1 / 4) NORMAL [\<lparr>col = 2, row = 13, type = NORMAL\<rparr>, \<lparr>col = 3, row = 13, type = FREEZE\<rparr>]
     = (False, 1 / 4, NORMAL, [\<lparr>col = 2, row = 13, type = NORMAL\<rparr>, \<lparr>col = 3, row = 13, type = FREEZE\<rparr>])
   \<and> breakAt 3 13 0 NORMAL [\<lparr>col = 2, row = 13, type = NORMAL\<rparr>, \<lparr>col = 3, row = 13, type = FREEZE\<rparr>]
     = (True, ABILITY_CD, FREEZE, [\<lparr>col = 2, row = 13, type = NORMAL\<rparr>])"
proof -
  let ?bs = "[\<lparr>col = 2, row = 13, type = NORMAL\<rparr>, \<lparr>col = 3, row = 13, type = FREEZE\<rparr>]"
  have 1: "(1 / 4 :: real) > 0 \<or> (3::int) < 0 \<or> 3 \<ge> COLS \<or> (13::int) < 0 \<or> 13 \<ge> ROWS
      \<or> \<not> (\<exists>b \<in> set ?bs. col b = 3 \<and> row b = 13)" by simp
  have 2: "\<not> (0::real) > 0 \<and> (0::int) \<le> 3 \<and> 3 < COLS \<and> (0::int) \<le> 13 \<and> 13 < ROWS
      \<and> (\<exists>b \<in> set ?bs. col b = 3 \<and> row b = 13)" by (simp add: ROWS_val COLS_val)
  have 3: "onePerCell ?bs" by (simp add: onePerCell_def)
  have 4: "filter (\<lambda>x. \<not> (col x = 3 \<and> row x = 13)) ?bs = [\<lparr>col = 2, row = 13, type = NORMAL\<rparr>]"
    by simp
  from breakAt_spec [of "1 / 4" 3 13 ?bs NORMAL] 1
  have a: "breakAt 3 13 (1 / 4) NORMAL ?bs = (False, 1 / 4, NORMAL, ?bs)" by blast
  from breakAt_spec [of 0 3 13 ?bs NORMAL] 2 3 obtain xs b ys where
    x: "?bs = xs @ b # ys" "col b = 3 \<and> row b = 13"
      "breakAt 3 13 0 NORMAL ?bs = (True, ABILITY_CD, type b, xs @ ys)"
      "xs @ ys = filter (\<lambda>x. \<not> (col x = 3 \<and> row x = 13)) ?bs" by blast
  from x(1,2) have "b = \<lparr>col = 3, row = 13, type = FREEZE\<rparr>"
    by (auto simp: append_eq_Cons_conv Cons_eq_append_conv)
  with x(3,4) 4 a show ?thesis by simp
qed

section \<open>The bomb\<close>

lemma filter_zip_fst:
  "length xs = length ys \<Longrightarrow> map fst (filter (\<lambda>(x, y). P x) (zip xs ys)) = filter P xs"
  by (induction xs ys rule: list_induct2) simp_all

lemma stripShape_cells:
  "length (types s) = length (cells s) \<Longrightarrow> cells (stripShape hit s) = filter (\<lambda>cell. \<not> hit s cell) (cells s)"
  using filter_zip_fst [of "cells s" "types s" "\<lambda>cell. \<not> hit s cell"]
  by (simp add: stripShape_def Let_def)

lemma stripShape_other:
  "sx (stripShape hit s) = sx s" "sy (stripShape hit s) = sy s" "speed (stripShape hit s) = speed s"
  "types (stripShape hit s)
     = map snd (filter (\<lambda>(cell, bt). \<not> hit s cell) (zip (cells s) (types s)))"
  by (simp_all add: stripShape_def Let_def)

lemma bomb_eq:
  "applyPower BOMB c r (bs, shapes, ft) =
     (filter (\<lambda>b. \<not> inBlast c r (col b, row b)) bs,
      filter (\<lambda>s. cells s \<noteq> []) (map (stripShape (\<lambda>s cell. inBlast c r (gridPos s cell))) shapes),
      ft)"
  by (simp add: inBlast_def gridPos_def stripShapes_def Let_def)

text \<open>
  C9: the bomb at trigger cell \<open>(c, r)\<close> keeps exactly the static blocks outside the radius, in
  their order; in every shape it keeps exactly the cells whose derived grid position is outside
  the radius, each with its type (the two lists stay aligned), and leaves the shape's origin
  and speed alone; it then drops the shapes left without cells. The freeze countdown is
  untouched.
\<close>

theorem bomb_spec:
  assumes "\<forall>s \<in> set shapes. length (types s) = length (cells s)"
  shows "\<exists>shapes'. applyPower BOMB c r (bs, shapes, ft)
        = (filter (\<lambda>b. \<not> (\<bar>col b - c\<bar> \<le> 5 \<and> \<bar>row b - r\<bar> \<le> 5)) bs,
           filter (\<lambda>s. cells s \<noteq> []) shapes', ft)
     \<and> length shapes' = length shapes
     \<and> (\<forall>i < length shapes.
          sx (shapes' ! i) = sx (shapes ! i) \<and> sy (shapes' ! i) = sy (shapes ! i)
          \<and> speed (shapes' ! i) = speed (shapes ! i)
          \<and> cells (shapes' ! i) = filter (\<lambda>cell. \<not> inBlast c r (gridPos (shapes ! i) cell)) (cells (shapes ! i))
          \<and> types (shapes' ! i)
              = map snd (filter (\<lambda>(cell, bt). \<not> inBlast c r (gridPos (shapes ! i) cell))
                  (zip (cells (shapes ! i)) (types (shapes ! i)))))"
proof (intro exI [of _ "map (stripShape (\<lambda>s cell. inBlast c r (gridPos s cell))) shapes"] conjI allI impI)
  show "applyPower BOMB c r (bs, shapes, ft)
        = (filter (\<lambda>b. \<not> (\<bar>col b - c\<bar> \<le> 5 \<and> \<bar>row b - r\<bar> \<le> 5)) bs,
           filter (\<lambda>s. cells s \<noteq> []) (map (stripShape (\<lambda>s cell. inBlast c r (gridPos s cell))) shapes), ft)"
    by (simp add: bomb_eq inBlast_def del: applyPower.simps)
next
  show "length (map (stripShape (\<lambda>s cell. inBlast c r (gridPos s cell))) shapes) = length shapes" by simp
next
  fix i assume i: "i < length shapes"
  then have "shapes ! i \<in> set shapes" by simp
  with assms have l: "length (types (shapes ! i)) = length (cells (shapes ! i))" by blast
  let ?h = "\<lambda>s cell. inBlast c r (gridPos s cell)"
  have n: "map (stripShape ?h) shapes ! i = stripShape ?h (shapes ! i)" using i by simp
  show "sx (map (stripShape ?h) shapes ! i) = sx (shapes ! i)" unfolding n by (rule stripShape_other)
  show "sy (map (stripShape ?h) shapes ! i) = sy (shapes ! i)" unfolding n by (rule stripShape_other)
  show "speed (map (stripShape ?h) shapes ! i) = speed (shapes ! i)" unfolding n by (rule stripShape_other)
  show "cells (map (stripShape ?h) shapes ! i)
      = filter (\<lambda>cell. \<not> inBlast c r (gridPos (shapes ! i) cell)) (cells (shapes ! i))"
    unfolding n by (rule stripShape_cells [OF l])
  show "types (map (stripShape ?h) shapes ! i)
      = map snd (filter (\<lambda>(cell, bt). \<not> inBlast c r (gridPos (shapes ! i) cell))
          (zip (cells (shapes ! i)) (types (shapes ! i))))"
    unfolding n by (rule stripShape_other)
qed

theorem bomb_spec_witness:
  "applyPower BOMB 8 8
     ([\<lparr>col = 3, row = 13, type = NORMAL\<rparr>, \<lparr>col = 2, row = 13, type = LASER_H\<rparr>],
      [\<lparr>sx = 90, sy = 60, speed = 220, cells = [(0, 0), (0, 1)], types = [FREEZE, NORMAL]\<rparr>,
       \<lparr>sx = 240, sy = 255, speed = 220, cells = [(0, 0)], types = [NORMAL]\<rparr>], 0)
   = ([\<lparr>col = 2, row = 13, type = LASER_H\<rparr>],
      [\<lparr>sx = 90, sy = 60, speed = 220, cells = [(0, 0)], types = [FREEZE]\<rparr>], 0)"
proof -
  let ?s1 = "\<lparr>sx = 90, sy = 60, speed = 220, cells = [(0, 0), (0, 1)], types = [FREEZE, NORMAL]\<rparr>"
  let ?s2 = "\<lparr>sx = 240, sy = 255, speed = 220, cells = [(0, 0)], types = [NORMAL]\<rparr>"
  let ?bs = "[\<lparr>col = 3, row = 13, type = NORMAL\<rparr>, \<lparr>col = 2, row = 13, type = LASER_H\<rparr>]"
  have l: "\<forall>s \<in> set [?s1, ?s2]. length (types s) = length (cells s)" by simp
  from bomb_spec [OF l, of 8 8 ?bs 0] obtain shapes' where
    r: "applyPower BOMB 8 8 (?bs, [?s1, ?s2], 0)
        = (filter (\<lambda>b. \<not> (\<bar>col b - 8\<bar> \<le> 5 \<and> \<bar>row b - 8\<bar> \<le> 5)) ?bs,
           filter (\<lambda>s. cells s \<noteq> []) shapes', 0)"
    and n: "length shapes' = length [?s1, ?s2]"
    and e: "\<forall>i < length [?s1, ?s2].
          sx (shapes' ! i) = sx ([?s1, ?s2] ! i) \<and> sy (shapes' ! i) = sy ([?s1, ?s2] ! i)
          \<and> speed (shapes' ! i) = speed ([?s1, ?s2] ! i)
          \<and> cells (shapes' ! i) = filter (\<lambda>cell. \<not> inBlast 8 8 (gridPos ([?s1, ?s2] ! i) cell)) (cells ([?s1, ?s2] ! i))
          \<and> types (shapes' ! i)
              = map snd (filter (\<lambda>(cell, bt). \<not> inBlast 8 8 (gridPos ([?s1, ?s2] ! i) cell))
                  (zip (cells ([?s1, ?s2] ! i)) (types ([?s1, ?s2] ! i))))"
    by blast
  from n obtain a b where ab: "shapes' = [a, b]"
    by (cases shapes'; cases "tl shapes'") auto
  from e [rule_format, of 0] ab
  have a: "sx a = 90" "sy a = 60" "speed a = 220" "cells a = [(0, 0)]"
    "types a = [FREEZE]"
    by (simp_all add: inBlast_def gridPos_def cint_def CELL_def)
  from e [rule_format, of 1] ab
  have b: "cells b = []" by (simp add: inBlast_def gridPos_def cint_def CELL_def)
  from a have "a = \<lparr>sx = 90, sy = 60, speed = 220, cells = [(0, 0)], types = [FREEZE]\<rparr>" by simp
  with r ab b show ?thesis by simp
qed

section \<open>Landing\<close>

lemma takeCand_pair:
  "takeCand (f, l) c = ((if l then min f c else c), True)"
  by (auto simp: takeCand_def min_def)

lemma fold_takeCand_True:
  "foldl takeCand (f, True) cs = (if cs = [] then f else min f (Min (set cs)), True)"
proof (induction cs arbitrary: f)
  case Nil
  show ?case by simp
next
  case (Cons c cs)
  show ?case
  proof (cases "cs = []")
    case True
    then show ?thesis by (simp add: takeCand_pair)
  next
    case False
    then show ?thesis by (simp add: takeCand_pair Cons.IH min.assoc)
  qed
qed

lemma fold_takeCand_False:
  "foldl takeCand (f, False) cs = (if cs = [] then (f, False) else (Min (set cs), True))"
proof (cases cs)
  case Nil
  then show ?thesis by simp
next
  case (Cons c cs')
  then show ?thesis by (cases "cs' = []") (simp_all add: takeCand_pair fold_takeCand_True)
qed

lemma rows_fold:
  "foldl (\<lambda>st r. if \<not> occ r c then st
                else if ob \<le> real_of_int (r * CELL) \<and> nb \<ge> real_of_int (r * CELL)
                  then takeCand st (real_of_int (r * CELL) - k) else st) st rs
   = foldl takeCand st (map (\<lambda>r. real_of_int (r * CELL) - k)
        (filter (\<lambda>r. occ r c \<and> ob \<le> real_of_int (r * CELL) \<and> real_of_int (r * CELL) \<le> nb) rs))"
  by (induction rs arbitrary: st) simp_all

lemma landCell_cands:
  "landCell occ s newY st cell = foldl takeCand st (cellCands occ s newY cell)"
proof -
  define k where "k = cellBottom cell"
  define c where "c = cellColumn s cell"
  define st1 where "st1 = (if newY + k \<ge> real_of_int SCREEN_HEIGHT
      then takeCand st (real_of_int SCREEN_HEIGHT - k) else st)"
  have "landCell occ s newY st cell =
      (if c < 0 \<or> c \<ge> COLS then st1
       else foldl (\<lambda>st r. if \<not> occ r c then st
                else if sy s + k \<le> real_of_int (r * CELL) \<and> newY + k \<ge> real_of_int (r * CELL)
                  then takeCand st (real_of_int (r * CELL) - k) else st) st1 [0..ROWS - 1])"
    unfolding landCell_def Let_def k_def c_def st1_def cellBottom_def cellColumn_def
    by (simp only: of_int_diff)
  also have "\<dots> = foldl takeCand st1 (if c < 0 \<or> c \<ge> COLS then []
        else map (\<lambda>r. real_of_int (r * CELL) - k)
               (filter (\<lambda>r. occ r c \<and> sy s + k \<le> real_of_int (r * CELL)
                          \<and> real_of_int (r * CELL) \<le> newY + k) [0..ROWS - 1]))"
    by (simp only: rows_fold if_distrib [of "foldl takeCand st1"] foldl_Nil)
  also have "\<dots> = foldl takeCand st (cellCands occ s newY cell)"
    unfolding cellCands_def tileCands_def st1_def k_def [symmetric] c_def [symmetric] by simp
  finally show ?thesis .
qed

lemma land_fold:
  "foldl (landCell occ s newY) st cs = foldl takeCand st (concat (map (cellCands occ s newY) cs))"
  by (induction cs arbitrary: st) (simp_all add: landCell_cands)

lemma land_min:
  "foldl (landCell occ s newY) (newY, False) (cells s)
   = (if candidates occ s newY = [] then (newY, False) else (Min (set (candidates occ s newY)), True))"
  by (simp add: land_fold fold_takeCand_False candidates_def)

lemma fallShape_eq:
  "fallShape occ dt (sb, ns) s =
     (if candidates occ s (sy s + speed s * dt) = [] then (sb, ns @ [s\<lparr>sy := sy s + speed s * dt\<rparr>])
      else (sb @ landBlocks (s\<lparr>sy := Min (set (candidates occ s (sy s + speed s * dt)))\<rparr>), ns))"
  by (simp add: fallShape_def Let_def land_min)

lemma tileCands_iff:
  "(y \<in> set (tileCands occ s newY cell)) =
   (\<exists>r. 0 \<le> r \<and> r < ROWS \<and> occ r (cellColumn s cell)
        \<and> sy s + cellBottom cell \<le> real_of_int (r * CELL)
        \<and> real_of_int (r * CELL) \<le> newY + cellBottom cell
        \<and> y = real_of_int (r * CELL) - cellBottom cell)"
proof -
  let ?P = "\<lambda>r. occ r (cellColumn s cell) \<and> sy s + cellBottom cell \<le> real_of_int (r * CELL)
                  \<and> real_of_int (r * CELL) \<le> newY + cellBottom cell"
  have "(y \<in> set (tileCands occ s newY cell))
      = (\<exists>r \<in> set (filter ?P [0..ROWS - 1]). y = real_of_int (r * CELL) - cellBottom cell)"
    unfolding tileCands_def set_map image_iff ..
  also have "\<dots> = (\<exists>r. (0 \<le> r \<and> r < ROWS \<and> ?P r) \<and> y = real_of_int (r * CELL) - cellBottom cell)"
    unfolding Bex_def by (rule ex_cong1) (simp only: set_filter mem_Collect_eq set_upto atLeastAtMost_iff, linarith)
  finally show ?thesis by (simp only: conj_assoc)
qed

lemma cand_cases:
  assumes "y \<in> set (candidates occ s newY)"
  shows "\<exists>cell \<in> set (cells s).
      (newY + cellBottom cell \<ge> real_of_int SCREEN_HEIGHT \<and> y = real_of_int SCREEN_HEIGHT - cellBottom cell)
      \<or> (\<exists>r. 0 \<le> r \<and> r < ROWS \<and> 0 \<le> cellColumn s cell \<and> cellColumn s cell < COLS
            \<and> occ r (cellColumn s cell) \<and> sy s + cellBottom cell \<le> real_of_int (r * CELL)
            \<and> real_of_int (r * CELL) \<le> newY + cellBottom cell
            \<and> y = real_of_int (r * CELL) - cellBottom cell)"
proof -
  from assms obtain cell where cell: "cell \<in> set (cells s)" "y \<in> set (cellCands occ s newY cell)"
    by (auto simp: candidates_def)
  from cell(2) have "(newY + cellBottom cell \<ge> real_of_int SCREEN_HEIGHT \<and> y = real_of_int SCREEN_HEIGHT - cellBottom cell)
      \<or> (0 \<le> cellColumn s cell \<and> cellColumn s cell < COLS \<and> y \<in> set (tileCands occ s newY cell))"
    unfolding cellCands_def by (auto split: if_splits)
  then have "(newY + cellBottom cell \<ge> real_of_int SCREEN_HEIGHT \<and> y = real_of_int SCREEN_HEIGHT - cellBottom cell)
      \<or> (\<exists>r. 0 \<le> r \<and> r < ROWS \<and> 0 \<le> cellColumn s cell \<and> cellColumn s cell < COLS
            \<and> occ r (cellColumn s cell) \<and> sy s + cellBottom cell \<le> real_of_int (r * CELL)
            \<and> real_of_int (r * CELL) \<le> newY + cellBottom cell
            \<and> y = real_of_int (r * CELL) - cellBottom cell)"
    unfolding tileCands_iff by blast
  with cell(1) show ?thesis by blast
qed

lemma cand_le_newY: "y \<in> set (candidates occ s newY) \<Longrightarrow> y \<le> newY"
  using cand_cases [of y occ s newY] by auto

lemma cand_ge_old:
  assumes "\<forall>cell \<in> set (cells s). sy s + cellBottom cell \<le> real_of_int SCREEN_HEIGHT"
    and "y \<in> set (candidates occ s newY)"
  shows "sy s \<le> y"
  using cand_cases [OF assms(2)] assms(1) by fastforce

lemma floor_cand_in:
  "cell \<in> set (cells s) \<Longrightarrow> newY + cellBottom cell \<ge> real_of_int SCREEN_HEIGHT
   \<Longrightarrow> real_of_int SCREEN_HEIGHT - cellBottom cell \<in> set (candidates occ s newY)"
  by (auto simp: candidates_def cellCands_def)

lemma tile_cand_in:
  assumes "cell \<in> set (cells s)" "0 \<le> cellColumn s cell" "cellColumn s cell < COLS"
    "0 \<le> r" "r < ROWS" "occ r (cellColumn s cell)"
    "sy s + cellBottom cell \<le> real_of_int (r * CELL)" "real_of_int (r * CELL) \<le> newY + cellBottom cell"
  shows "real_of_int (r * CELL) - cellBottom cell \<in> set (candidates occ s newY)"
proof -
  have "real_of_int (r * CELL) - cellBottom cell \<in> set (tileCands occ s newY cell)"
    unfolding tileCands_iff using assms(4-8) by blast
  with assms(2,3) have "real_of_int (r * CELL) - cellBottom cell \<in> set (cellCands occ s newY cell)"
    unfolding cellCands_def by simp
  with assms(1) show ?thesis unfolding candidates_def by auto
qed

lemma landingY_le_newY: "landingY occ dt s \<le> sy s + speed s * dt"
proof (cases "candidates occ s (sy s + speed s * dt) = []")
  case True
  then show ?thesis by (simp add: landingY_def)
next
  case False
  then obtain y where y: "y \<in> set (candidates occ s (sy s + speed s * dt))"
    by (cases "candidates occ s (sy s + speed s * dt)") auto
  then have "Min (set (candidates occ s (sy s + speed s * dt))) \<le> y" by simp
  with cand_le_newY [OF y] False show ?thesis by (simp add: landingY_def)
qed

lemma landingY_le_cand:
  "y \<in> set (candidates occ s (sy s + speed s * dt)) \<Longrightarrow> landingY occ dt s \<le> y"
  by (auto simp: landingY_def)

lemma landingY_floor:
  assumes "cell \<in> set (cells s)"
  shows "landingY occ dt s + cellBottom cell \<le> real_of_int SCREEN_HEIGHT"
proof (cases "sy s + speed s * dt + cellBottom cell \<ge> real_of_int SCREEN_HEIGHT")
  case True
  from landingY_le_cand [OF floor_cand_in [OF assms True, of occ]] show ?thesis by simp
next
  case False
  with landingY_le_newY [of occ dt s] show ?thesis by simp
qed

lemma landingY_ge_old:
  assumes "\<forall>cell \<in> set (cells s). sy s + cellBottom cell \<le> real_of_int SCREEN_HEIGHT"
    and "0 \<le> speed s * dt"
  shows "sy s \<le> landingY occ dt s"
proof (cases "candidates occ s (sy s + speed s * dt) = []")
  case True
  with assms(2) show ?thesis by (simp add: landingY_def)
next
  case False
  then have "Min (set (candidates occ s (sy s + speed s * dt))) \<in> set (candidates occ s (sy s + speed s * dt))"
    by (intro Min_in) simp_all
  from cand_ge_old [OF assms(1) this] False show ?thesis by (simp add: landingY_def)
qed

lemma cint_le: "v \<le> real_of_int n \<Longrightarrow> cint v \<le> n"
  unfolding cint_def by (simp add: ceiling_le floor_le_iff)

lemma cint_ge: "real_of_int n \<le> v \<Longrightarrow> n \<le> cint v"
  unfolding cint_def by (simp add: le_floor_iff le_ceiling_iff)

lemma landBlocks_mem:
  assumes "b \<in> set (landBlocks s)"
  shows "\<exists>cell \<in> set (cells s). col b = cint (sx s / real_of_int CELL + real_of_int (fst cell))
      \<and> row b = cint (sy s / real_of_int CELL + real_of_int (snd cell))
      \<and> 0 \<le> col b \<and> col b < COLS \<and> 0 \<le> row b \<and> row b < ROWS"
proof -
  from assms obtain cell bt where z: "(cell, bt) \<in> set (zip (cells s) (types s))"
    and b: "b \<in> set (let bc = cint (sx s / real_of_int CELL + real_of_int (fst cell));
            br = cint (sy s / real_of_int CELL + real_of_int (snd cell))
        in if bc \<ge> 0 \<and> bc < COLS \<and> br \<ge> 0 \<and> br < ROWS
           then [\<lparr>col = bc, row = br, type = bt\<rparr>] else [])"
    unfolding landBlocks_def by auto
  from z have "cell \<in> set (cells s)" by (rule set_zip_leftD)
  moreover from b have "col b = cint (sx s / real_of_int CELL + real_of_int (fst cell))
      \<and> row b = cint (sy s / real_of_int CELL + real_of_int (snd cell))
      \<and> 0 \<le> col b \<and> col b < COLS \<and> 0 \<le> row b \<and> row b < ROWS"
    by (auto simp: Let_def split: if_splits)
  ultimately show ?thesis by blast
qed

lemma column_eq: "cint (sx s / real_of_int CELL + real_of_int (fst cell)) = cellColumn s cell"
  by (simp add: cellColumn_def CELL_def add_divide_distrib)

lemma land_no_overlap:
  assumes ld: "candidates occ s (sy s + speed s * dt) \<noteq> []"
    and fl: "aboveFloor s" and cl: "clearStart occ s"
    and b: "b \<in> set (landBlocks (s\<lparr>sy := landingY occ dt s\<rparr>))"
  shows "\<not> occ (row b) (col b)"
proof
  assume o: "occ (row b) (col b)"
  let ?Y = "landingY occ dt s"
  let ?newY = "sy s + speed s * dt"
  from landBlocks_mem [OF b] obtain cell where cell: "cell \<in> set (cells s)"
    and cb: "col b = cint (sx s / real_of_int CELL + real_of_int (fst cell))"
    and rb: "row b = cint (?Y / real_of_int CELL + real_of_int (snd cell))"
    and rg: "0 \<le> col b" "col b < COLS" "0 \<le> row b" "row b < ROWS" by auto
  from cb have cc: "col b = cellColumn s cell" by (simp add: column_eq)
  from cl cell o cc have "sy s + cellBottom cell \<le> real_of_int (row b * CELL)
        \<or> real_of_int ((row b + 1) * CELL) \<le> sy s + real_of_int (snd cell * CELL)"
    unfolding clearStart_def by auto
  then show False
  proof
    assume A: "sy s + cellBottom cell \<le> real_of_int (row b * CELL)"
    have "?Y + cellBottom cell \<le> real_of_int (row b * CELL)"
    proof (cases "real_of_int (row b * CELL) \<le> ?newY + cellBottom cell")
      case True
      from tile_cand_in [OF cell _ _ rg(3,4) _ A True, of occ] o cc rg
      have "real_of_int (row b * CELL) - cellBottom cell \<in> set (candidates occ s ?newY)" by simp
      from landingY_le_cand [OF this] show ?thesis by simp
    next
      case False
      with landingY_le_newY [of occ dt s] show ?thesis by simp
    qed
    then have "?Y / real_of_int CELL + real_of_int (snd cell) \<le> real_of_int (row b - 1)"
      by (simp add: cellBottom_def CELL_def field_simps)
    from cint_le [OF this] rb show False by simp
  next
    assume B: "real_of_int ((row b + 1) * CELL) \<le> sy s + real_of_int (snd cell * CELL)"
    have "sy s \<le> ?Y"
    proof -
      from ld have "Min (set (candidates occ s ?newY)) \<in> set (candidates occ s ?newY)"
        by (intro Min_in) simp_all
      from cand_ge_old [OF fl [unfolded aboveFloor_def] this] ld show ?thesis
        by (simp add: landingY_def)
    qed
    with B have "real_of_int (row b + 1) \<le> ?Y / real_of_int CELL + real_of_int (snd cell)"
      by (simp add: CELL_def field_simps)
    from cint_ge [OF this] rb show False by simp
  qed
qed

lemma buildOcc_cell:
  "0 \<le> c \<Longrightarrow> c < COLS \<Longrightarrow> 0 \<le> r \<Longrightarrow> r < ROWS
   \<Longrightarrow> buildOcc blocks r c = (\<exists>b \<in> set blocks. col b = c \<and> row b = r)"
  by (auto simp: buildOcc_iff grid_def)

text \<open>
  C1, as the code has it. For a shape \<open>s\<close> handled by the falling update against the occupancy
  of the list \<open>blocks\<close>: the shape lands exactly when it has a candidate, and then at the least
  candidate; the origin it is left at, and every origin above that, has each cell's bottom edge
  at or above the floor, and the origin does not move up when the shape started above the
  floor; and when the shape started above the floor and clear of the tiles, no block it is
  converted into lies in a cell that a block of \<open>blocks\<close> occupies.
\<close>

theorem landing_spec:
  "fallShape (buildOcc blocks) dt (sb, ns) s =
     (if candidates (buildOcc blocks) s (sy s + speed s * dt) = []
      then (sb, ns @ [s\<lparr>sy := sy s + speed s * dt\<rparr>])
      else (sb @ landBlocks (s\<lparr>sy := Min (set (candidates (buildOcc blocks) s (sy s + speed s * dt)))\<rparr>), ns))
   \<and> (\<forall>y \<le> landingY (buildOcc blocks) dt s. \<forall>cell \<in> set (cells s).
         y + cellBottom cell \<le> real_of_int SCREEN_HEIGHT)
   \<and> (aboveFloor s \<and> 0 \<le> speed s * dt \<longrightarrow> sy s \<le> landingY (buildOcc blocks) dt s)
   \<and> (candidates (buildOcc blocks) s (sy s + speed s * dt) \<noteq> [] \<and> aboveFloor s
        \<and> clearStart (buildOcc blocks) s
      \<longrightarrow> (\<forall>b \<in> set (landBlocks (s\<lparr>sy := landingY (buildOcc blocks) dt s\<rparr>)).
            \<not> (\<exists>b' \<in> set blocks. col b' = col b \<and> row b' = row b)))"
proof (intro conjI allI impI ballI)
  show "fallShape (buildOcc blocks) dt (sb, ns) s =
     (if candidates (buildOcc blocks) s (sy s + speed s * dt) = []
      then (sb, ns @ [s\<lparr>sy := sy s + speed s * dt\<rparr>])
      else (sb @ landBlocks (s\<lparr>sy := Min (set (candidates (buildOcc blocks) s (sy s + speed s * dt)))\<rparr>), ns))"
    by (rule fallShape_eq)
next
  fix y cell assume "y \<le> landingY (buildOcc blocks) dt s" "cell \<in> set (cells s)"
  with landingY_floor [of cell s "buildOcc blocks" dt]
  show "y + cellBottom cell \<le> real_of_int SCREEN_HEIGHT" by simp
next
  assume "aboveFloor s \<and> 0 \<le> speed s * dt"
  then show "sy s \<le> landingY (buildOcc blocks) dt s"
    by (intro landingY_ge_old) (simp_all add: aboveFloor_def)
next
  fix b
  assume a: "candidates (buildOcc blocks) s (sy s + speed s * dt) \<noteq> [] \<and> aboveFloor s
        \<and> clearStart (buildOcc blocks) s"
    and b: "b \<in> set (landBlocks (s\<lparr>sy := landingY (buildOcc blocks) dt s\<rparr>))"
  from a b have n: "\<not> buildOcc blocks (row b) (col b)" by (intro land_no_overlap) simp_all
  from landBlocks_mem [OF b] have "0 \<le> col b" "col b < COLS" "0 \<le> row b" "row b < ROWS" by auto
  from buildOcc_cell [OF this] n show "\<not> (\<exists>b' \<in> set blocks. col b' = col b \<and> row b' = row b)"
    by simp
qed

lemmas land_eval = updateFalling_def fallShape_def landCell_def landBlocks_def takeCand_def
  buildOcc_def cint_def ROWS_val COLS_val CELL_def SCREEN_HEIGHT_def upto_rows Let_def

theorem landing_overlap_counterexample:
  "updateFalling (1 / 32) [\<lparr>col = 0, row = 19, type = NORMAL\<rparr>]
     [\<lparr>sx = 0, sy = 565, speed = 220, cells = [(0, 0)], types = [BOMB]\<rparr>]
   = ([\<lparr>col = 0, row = 19, type = NORMAL\<rparr>, \<lparr>col = 0, row = 19, type = BOMB\<rparr>], [])"
  by (simp add: land_eval)

theorem landing_spec_witness:
  "fallShape (buildOcc [\<lparr>col = 0, row = 19, type = NORMAL\<rparr>]) (1 / 32)
     ([\<lparr>col = 0, row = 19, type = NORMAL\<rparr>], [])
     \<lparr>sx = 0, sy = 535, speed = 220, cells = [(0, 0)], types = [BOMB]\<rparr>
   = ([\<lparr>col = 0, row = 19, type = NORMAL\<rparr>, \<lparr>col = 0, row = 18, type = BOMB\<rparr>], [])
   \<and> landingY (buildOcc [\<lparr>col = 0, row = 19, type = NORMAL\<rparr>]) (1 / 32)
        \<lparr>sx = 0, sy = 535, speed = 220, cells = [(0, 0)], types = [BOMB]\<rparr> = 540
   \<and> aboveFloor \<lparr>sx = 0, sy = 535, speed = 220, cells = [(0, 0)], types = [BOMB]\<rparr>
   \<and> clearStart (buildOcc [\<lparr>col = 0, row = 19, type = NORMAL\<rparr>])
        \<lparr>sx = 0, sy = 535, speed = 220, cells = [(0, 0)], types = [BOMB]\<rparr>
   \<and> \<not> (\<exists>b' \<in> set [\<lparr>col = 0, row = 19, type = NORMAL\<rparr>]. col b' = 0 \<and> row b' = 18)"
proof -
  let ?bs = "[\<lparr>col = 0, row = 19, type = NORMAL\<rparr>]"
  let ?s = "\<lparr>sx = 0, sy = 535, speed = 220, cells = [(0, 0)], types = [BOMB]\<rparr>"
  have c: "candidates (buildOcc ?bs) ?s (sy ?s + speed ?s * (1 / 32)) = [540]"
    by (simp add: candidates_def cellCands_def tileCands_def cellBottom_def cellColumn_def
        buildOcc_def cint_def ROWS_val COLS_val CELL_def SCREEN_HEIGHT_def upto_rows)
  then have y: "landingY (buildOcc ?bs) (1 / 32) ?s = 540" by (simp add: landingY_def)
  have l: "landBlocks (?s\<lparr>sy := 540\<rparr>) = [\<lparr>col = 0, row = 18, type = BOMB\<rparr>]"
    by (simp add: landBlocks_def cint_def ROWS_val COLS_val CELL_def)
  have f: "aboveFloor ?s" by (simp add: aboveFloor_def cellBottom_def CELL_def SCREEN_HEIGHT_def)
  have k: "clearStart (buildOcc ?bs) ?s"
    by (simp add: clearStart_def cellBottom_def cellColumn_def buildOcc_def cint_def CELL_def)
  have n: "candidates (buildOcc ?bs) ?s (sy ?s + speed ?s * (1 / 32)) \<noteq> []" using c by simp
  note t = landing_spec [of ?bs "1 / 32" ?bs "[]" ?s]
  from t c l have 1: "fallShape (buildOcc ?bs) (1 / 32) (?bs, []) ?s
      = ([\<lparr>col = 0, row = 19, type = NORMAL\<rparr>, \<lparr>col = 0, row = 18, type = BOMB\<rparr>], [])" by simp
  from t n f k have "\<forall>b \<in> set (landBlocks (?s\<lparr>sy := landingY (buildOcc ?bs) (1 / 32) ?s\<rparr>)).
            \<not> (\<exists>b' \<in> set ?bs. col b' = col b \<and> row b' = row b)" by blast
  then have 2: "\<not> (\<exists>b' \<in> set ?bs. col b' = 0 \<and> row b' = 18)" unfolding y l by simp
  from 1 y f k 2 show ?thesis by blast
qed

section \<open>Freeze\<close>

lemma decay_freeze:
  "0 < freezeTimer g \<Longrightarrow> d < freezeTimer g \<Longrightarrow> freezeTimer (decayTimers d g) = freezeTimer g - d"
  by (simp add: decayTimers_def Let_def)

lemma decay_gameOver: "gameOver (decayTimers d g) = gameOver g"
  by (simp add: decayTimers_def Let_def)

lemma spawn_keeps:
  "gameOver (spawnPhase rnd d v g) = gameOver g"
  "freezeTimer (spawnPhase rnd d v g) = freezeTimer g"
  "staticBlocks (spawnPhase rnd d v g) = staticBlocks g"
  by (simp_all add: spawnPhase_def Let_def)

lemma applyPower_freeze_pos:
  "0 < ft \<Longrightarrow> 0 < snd (snd (applyPower t c r (sb, shapes, ft)))"
  by (cases t) (simp_all add: FREEZE_DURATION_def Let_def)

lemma tryBreak_freeze_pos:
  assumes "0 < snd (snd st)"
  shows "0 < snd (snd (snd (snd (tryBreak key tc tr cd u st))))"
proof -
  obtain sb shapes ft where st: "st = (sb, shapes, ft)" by (cases st)
  obtain ok cd' u' sb' where b: "breakAt tc tr cd u sb = (ok, cd', u', sb')"
    by (cases "breakAt tc tr cd u sb")
  from assms st have "0 < ft" by simp
  from applyPower_freeze_pos [OF this, of u' tc tr sb' shapes] this
  show ?thesis by (simp add: tryBreak_def st b)
qed

lemma break_keeps:
  "gameOver (breakPhase f g) = gameOver g"
  by (simp add: breakPhase_def Let_def split: prod.splits)

lemma break_freeze_pos:
  assumes "0 < freezeTimer g"
  shows "0 < freezeTimer (breakPhase f g)"
proof (cases "gameOver g")
  case True
  with assms show ?thesis by (simp add: breakPhase_def)
next
  case False
  let ?pc = "cdiv (playerX f) CELL" and ?pr = "cdiv (playerY f) CELL"
  let ?st0 = "(staticBlocks g, fallingShapes g, freezeTimer g)"
  obtain cdL u1 st1 where 1: "tryBreak (keyLeft f) (?pc - 1) ?pr (cdLeft g) NORMAL ?st0 = (cdL, u1, st1)"
    by (cases "tryBreak (keyLeft f) (?pc - 1) ?pr (cdLeft g) NORMAL ?st0")
  obtain cdR u2 st2 where 2: "tryBreak (keyRight f) (?pc + 1) ?pr (cdRight g) u1 st1 = (cdR, u2, st2)"
    by (cases "tryBreak (keyRight f) (?pc + 1) ?pr (cdRight g) u1 st1")
  obtain cdU u3 st3 where 3: "tryBreak (keyUp f) ?pc (?pr - 1) (cdUp g) u2 st2 = (cdU, u3, st3)"
    by (cases "tryBreak (keyUp f) ?pc (?pr - 1) (cdUp g) u2 st2")
  obtain cdD u4 sb shapes ft where 4: "tryBreak (keyDown f) ?pc (?pr + 1) (cdDown g) u3 st3 = (cdD, u4, sb, shapes, ft)"
    by (cases "tryBreak (keyDown f) ?pc (?pr + 1) (cdDown g) u3 st3") auto
  from assms have "0 < snd (snd ?st0)" by simp
  from tryBreak_freeze_pos [OF this, of "keyLeft f" "?pc - 1" ?pr "cdLeft g" NORMAL] 1
  have "0 < snd (snd st1)" by simp
  from tryBreak_freeze_pos [OF this, of "keyRight f" "?pc + 1" ?pr "cdRight g" u1] 2
  have "0 < snd (snd st2)" by simp
  from tryBreak_freeze_pos [OF this, of "keyUp f" ?pc "?pr - 1" "cdUp g" u2] 3
  have "0 < snd (snd st3)" by simp
  from tryBreak_freeze_pos [OF this, of "keyDown f" ?pc "?pr + 1" "cdDown g" u3] 4
  have "0 < ft" by simp
  with False 1 2 3 4 show ?thesis by (simp add: breakPhase_def Let_def)
qed

lemma rowClear_keeps:
  "gameOver (rowClearPhase g) = gameOver g" "freezeTimer (rowClearPhase g) = freezeTimer g"
  by (simp_all add: rowClearPhase_def)

lemma fallPhase_frozen: "0 < freezeTimer g \<Longrightarrow> fallPhase d g = g"
  by (simp add: fallPhase_def)

lemma clusterPhase_frozen: "0 < freezeTimer g \<Longrightarrow> clusterPhase f v g = g"
  by (simp add: clusterPhase_def)

lemma tryBreak_FREEZE:
  "breakAt tc tr cd u sb = (True, cd', FREEZE, sb')
   \<Longrightarrow> tryBreak True tc tr cd u (sb, shapes, ft) = (cd', FREEZE, sb', shapes, FREEZE_DURATION)"
  by (simp add: tryBreak_def)

lemma decay_pos:
  assumes "0 < freezeTimer (decayTimers d g)"
  shows "0 < freezeTimer g" "freezeTimer (decayTimers d g) = freezeTimer g - d"
  using assms by (simp_all add: decayTimers_def Let_def split: if_splits)

lemma decay_fields:
  "staticBlocks (decayTimers d g) = staticBlocks g"
  "fallingShapes (decayTimers d g) = fallingShapes g"
  "spawnTimer (decayTimers d g) = spawnTimer g"
  "cdLeft (decayTimers d g) = max 0 (cdLeft g - d)"
  "cdRight (decayTimers d g) = max 0 (cdRight g - d)"
  "cdUp (decayTimers d g) = max 0 (cdUp g - d)"
  "cdDown (decayTimers d g) = max 0 (cdDown g - d)"
  "\<not> gameOver g \<Longrightarrow> elapsedTime (decayTimers d g) = elapsedTime g + d"
  by (simp_all add: decayTimers_def Let_def)

lemma spawn_fields:
  "elapsedTime (spawnPhase rnd d v g) = elapsedTime g"
  "cdLeft (spawnPhase rnd d v g) = cdLeft g"
  "cdRight (spawnPhase rnd d v g) = cdRight g"
  "cdUp (spawnPhase rnd d v g) = cdUp g"
  "cdDown (spawnPhase rnd d v g) = cdDown g"
  by (simp_all add: spawnPhase_def Let_def)

lemma spawn_cells_nonempty:
  "concat (map (\<lambda>dy. map (\<lambda>dx. (dx, dy)) [0..(w::int) - 1]) [0..(h::int) - 1]) \<noteq> []" if "1 \<le> w" "1 \<le> h"
proof -
  from that have "[0..w - 1] = 0 # [1..w - 1]" "[0..h - 1] = 0 # [1..h - 1]"
    by (simp_all add: upto_rec1)
  then show ?thesis by simp
qed

lemma spawn_due:
  assumes "\<not> gameOver g" "spawnInterval \<le> spawnTimer g + d"
  shows "spawnTimer (spawnPhase rnd d v g) = 0"
    and "\<exists>fs. fallingShapes (spawnPhase rnd d v g) = fallingShapes g @ [fs]
            \<and> speed fs = v \<and> sy fs < 0 \<and> cells fs \<noteq> []"
proof -
  from assms show "spawnTimer (spawnPhase rnd d v g) = 0" by (simp add: spawnPhase_def Let_def)
  let ?w = "(if rnd 0 mod 5 = 1 then 2 else if rnd 0 mod 5 = 2 then 4 else 1) :: int"
  let ?h = "(if rnd 0 mod 5 = 3 then 2 else if rnd 0 mod 5 = 4 then 4 else 1) :: int"
  have "concat (map (\<lambda>dy. map (\<lambda>dx. (dx, dy)) [0..?w - 1]) [0..?h - 1]) \<noteq> []"
    by (rule spawn_cells_nonempty) simp_all
  with assms show "\<exists>fs. fallingShapes (spawnPhase rnd d v g) = fallingShapes g @ [fs]
            \<and> speed fs = v \<and> sy fs < 0 \<and> cells fs \<noteq> []"
    by (simp add: spawnPhase_def Let_def CELL_def del: concat_eq_Nil_conv)
qed

lemma spawn_not_due:
  assumes "\<not> gameOver g" "spawnTimer g + d < spawnInterval"
  shows "spawnTimer (spawnPhase rnd d v g) = spawnTimer g + d"
    and "fallingShapes (spawnPhase rnd d v g) = fallingShapes g"
  using assms by (simp_all add: spawnPhase_def Let_def)

lemma breakAt_not_ok:
  "\<not> fst (breakAt tc tr cd u sb) \<Longrightarrow> breakAt tc tr cd u sb = (False, cd, u, sb)"
  by (simp add: breakAt_def split: if_splits option.splits prod.splits)

lemma tryBreak_keyBreak: "tryBreak key tc tr cd u st = keyBreak key tc tr cd u st"
proof -
  obtain sb shapes ft where st: "st = (sb, shapes, ft)" by (cases st)
  obtain ok cd' t sb' where b: "breakAt tc tr cd u sb = (ok, cd', t, sb')"
    by (cases "breakAt tc tr cd u sb")
  from breakAt_not_ok [of tc tr cd u sb] b have "\<not> ok \<Longrightarrow> cd' = cd \<and> t = u \<and> sb' = sb" by simp
  then show ?thesis by (auto simp: tryBreak_def keyBreak_def st b)
qed

lemma rest_eq:
  assumes "\<not> gameOver g"
  shows "gameOverCheck (rowClearPhase (breakPhase f g)) = suspendedRest f g"
  using assms
  by (simp add: gameOverCheck_def rowClearPhase_def breakPhase_def suspendedRest_def
      tryBreak_keyBreak Let_def split: prod.splits)

lemma breakAt_subset: "set (snd (snd (snd (breakAt tc tr cd u sb)))) \<subseteq> set sb"
proof (cases "eraseFirstAt tc tr sb")
  case None
  then show ?thesis by (simp add: breakAt_def)
next
  case (Some a)
  obtain t bs' where a: "a = (t, bs')" by (cases a)
  from eraseFirstAt_Some [OF Some [unfolded a]] have "set bs' \<subseteq> set sb" by auto
  with Some a show ?thesis by (simp add: breakAt_def)
qed

lemma stripShapes_place:
  "s \<in> set (stripShapes hit shapes) \<Longrightarrow> \<exists>s0 \<in> set shapes. sx s = sx s0 \<and> sy s = sy s0"
  by (auto simp: stripShapes_def stripShape_def Let_def)

lemma applyPower_keeps:
  "set (fst (applyPower t c r (sb, shapes, ft))) \<subseteq> set sb"
  "s \<in> set (fst (snd (applyPower t c r (sb, shapes, ft))))
   \<Longrightarrow> \<exists>s0 \<in> set shapes. sx s = sx s0 \<and> sy s = sy s0"
  by (cases t; auto simp: Let_def dest: stripShapes_place)+

lemma keyBreak_keeps:
  assumes "keyBreak key tc tr cd u (sb, shapes, ft) = (cd', u', sb', shapes', ft')"
  shows "set sb' \<subseteq> set sb"
    and "\<forall>s \<in> set shapes'. \<exists>s0 \<in> set shapes. sx s = sx s0 \<and> sy s = sy s0"
proof -
  obtain ok cd1 t sb1 where b: "breakAt tc tr cd u sb = (ok, cd1, t, sb1)"
    by (cases "breakAt tc tr cd u sb")
  from breakAt_subset [of tc tr cd u sb] b have 1: "set sb1 \<subseteq> set sb" by simp
  show "set sb' \<subseteq> set sb"
  proof (cases "key \<and> ok")
    case True
    with assms b have "sb' = fst (applyPower t tc tr (sb1, shapes, ft))"
      by (auto simp: keyBreak_def)
    with applyPower_keeps(1) [of t tc tr sb1 shapes ft] 1 show ?thesis by simp
  next
    case False
    with assms b show ?thesis by (auto simp: keyBreak_def)
  qed
  show "\<forall>s \<in> set shapes'. \<exists>s0 \<in> set shapes. sx s = sx s0 \<and> sy s = sy s0"
  proof (cases "key \<and> ok")
    case True
    with assms b have "shapes' = fst (snd (applyPower t tc tr (sb1, shapes, ft)))"
      by (auto simp: keyBreak_def)
    with applyPower_keeps(2) [of _ t tc tr sb1 shapes ft] show ?thesis by simp
  next
    case False
    with assms b show ?thesis by (auto simp: keyBreak_def)
  qed
qed

lemma rowClear_keeps_blocks:
  "b \<in> set (rowClear bs) \<Longrightarrow> \<exists>b0 \<in> set bs. col b = col b0 \<and> type b = type b0 \<and> row b0 \<le> row b"
  unfolding rowClear_eq by auto

lemma suspendedRest_keeps:
  "\<forall>s \<in> set (fallingShapes (suspendedRest f g)). \<exists>s0 \<in> set (fallingShapes g). sx s = sx s0 \<and> sy s = sy s0"
  "\<forall>b \<in> set (staticBlocks (suspendedRest f g)).
     \<exists>b0 \<in> set (staticBlocks g). col b = col b0 \<and> type b = type b0 \<and> row b0 \<le> row b"
proof -
  let ?pc = "cdiv (playerX f) CELL" and ?pr = "cdiv (playerY f) CELL"
  obtain cdL u1 sb1 sh1 ft1 where 1: "keyBreak (keyLeft f) (?pc - 1) ?pr (cdLeft g) NORMAL
      (staticBlocks g, fallingShapes g, freezeTimer g) = (cdL, u1, sb1, sh1, ft1)"
    by (metis prod_cases5)
  obtain cdR u2 sb2 sh2 ft2 where 2: "keyBreak (keyRight f) (?pc + 1) ?pr (cdRight g) u1
      (sb1, sh1, ft1) = (cdR, u2, sb2, sh2, ft2)"
    by (metis prod_cases5)
  obtain cdU u3 sb3 sh3 ft3 where 3: "keyBreak (keyUp f) ?pc (?pr - 1) (cdUp g) u2
      (sb2, sh2, ft2) = (cdU, u3, sb3, sh3, ft3)"
    by (metis prod_cases5)
  obtain cdD u4 sb4 sh4 ft4 where 4: "keyBreak (keyDown f) ?pc (?pr + 1) (cdDown g) u3
      (sb3, sh3, ft3) = (cdD, u4, sb4, sh4, ft4)"
    by (metis prod_cases5)
  have fs: "fallingShapes (suspendedRest f g) = sh4"
    and sb: "staticBlocks (suspendedRest f g) = rowClear sb4"
    by (simp_all add: suspendedRest_def Let_def 1 2 3 4)
  from keyBreak_keeps [OF 1] keyBreak_keeps [OF 2] keyBreak_keeps [OF 3] keyBreak_keeps [OF 4]
  have s: "set sb4 \<subseteq> set (staticBlocks g)"
    and p: "\<forall>s \<in> set sh4. \<exists>s0 \<in> set (fallingShapes g). sx s = sx s0 \<and> sy s = sy s0"
    by (blast, metis)
  from p show "\<forall>s \<in> set (fallingShapes (suspendedRest f g)).
      \<exists>s0 \<in> set (fallingShapes g). sx s = sx s0 \<and> sy s = sy s0"
    unfolding fs .
  show "\<forall>b \<in> set (staticBlocks (suspendedRest f g)).
     \<exists>b0 \<in> set (staticBlocks g). col b = col b0 \<and> type b = type b0 \<and> row b0 \<le> row b"
    unfolding sb using rowClear_keeps_blocks [of _ sb4] s by blast
qed

text \<open>
  C7, as the code has it. A successful break of a FREEZE block sets the countdown to
  \<open>FREEZE_DURATION\<close>, ten seconds. Take a tick of a game that is not over in which the
  countdown is still positive after the tick's own decrement, the value the guard of the
  falling update reads. Then the falling update changes nothing and the cluster resolution
  changes nothing; every shape after the tick lies where a shape lay after the spawn, and every
  static block after the tick is a block from before the tick, in its column and at most moved
  down by the row clear, so no shape has moved or landed and no block has become a shape. The
  other steps run: the elapsed time advances and the countdown and cooldowns decay; when the
  spawn timer is due it is reset and one shape is appended above the screen with the current
  fall speed, otherwise the timer accumulates; and the rest of the tick is exactly
  \<open>suspendedRest\<close>: the four arrow keys break and apply power effects, full rows are cleared,
  and the game is over when a block is left in row 0.

  A tick that starts with a positive countdown and uses it up is not suspended: its shapes
  move and its floating blocks become shapes.
\<close>

theorem freeze_suspends:
  "FREEZE_DURATION = 10
   \<and> (breakAt tc tr cd u sb = (True, cd', FREEZE, sb')
      \<longrightarrow> tryBreak True tc tr cd u (sb, shapes, ft) = (cd', FREEZE, sb', shapes, FREEZE_DURATION))
   \<and> (\<not> gameOver g \<and> 0 < freezeTimer (decayTimers (frameDt f) g) \<longrightarrow>
        (let d = frameDt f;
             g1 = decayTimers d g;
             v = fallSpeedOf g1;
             g2 = spawnPhase (rand f) d v g1;
             g5 = rowClearPhase (breakPhase f g2)
         in fallPhase d g2 = g2
            \<and> clusterPhase f v g5 = g5
            \<and> (\<forall>s \<in> set (fallingShapes (tick f g)).
                  \<exists>s0 \<in> set (fallingShapes g2). sx s = sx s0 \<and> sy s = sy s0)
            \<and> (\<forall>b \<in> set (staticBlocks (tick f g)).
                  \<exists>b0 \<in> set (staticBlocks g). col b = col b0 \<and> type b = type b0 \<and> row b0 \<le> row b)
            \<and> (spawnInterval \<le> spawnTimer g + d \<longrightarrow>
                 spawnTimer g2 = 0
                 \<and> (\<exists>fs. fallingShapes g2 = fallingShapes g @ [fs]
                      \<and> speed fs = baseFall + min maxExtra ((elapsedTime g + d) * 5)
                      \<and> sy fs < 0 \<and> cells fs \<noteq> []))
            \<and> (spawnTimer g + d < spawnInterval \<longrightarrow>
                 spawnTimer g2 = spawnTimer g + d \<and> fallingShapes g2 = fallingShapes g)
            \<and> staticBlocks g2 = staticBlocks g
            \<and> freezeTimer g2 = freezeTimer g - d
            \<and> elapsedTime g2 = elapsedTime g + d
            \<and> cdLeft g2 = max 0 (cdLeft g - d) \<and> cdRight g2 = max 0 (cdRight g - d)
            \<and> cdUp g2 = max 0 (cdUp g - d) \<and> cdDown g2 = max 0 (cdDown g - d)
            \<and> \<not> gameOver g2
            \<and> tick f g = suspendedRest f g2))"
proof (intro conjI impI)
  show "FREEZE_DURATION = 10" by (simp add: FREEZE_DURATION_def)
next
  assume "breakAt tc tr cd u sb = (True, cd', FREEZE, sb')"
  then show "tryBreak True tc tr cd u (sb, shapes, ft) = (cd', FREEZE, sb', shapes, FREEZE_DURATION)"
    by (rule tryBreak_FREEZE)
next
  assume a: "\<not> gameOver g \<and> 0 < freezeTimer (decayTimers (frameDt f) g)"
  define d where "d = frameDt f"
  define g1 where "g1 = decayTimers d g"
  define v where "v = fallSpeedOf g1"
  define g2 where "g2 = spawnPhase (rand f) d v g1"
  define g5 where "g5 = rowClearPhase (breakPhase f g2)"
  from a have n: "\<not> gameOver g" and p: "0 < freezeTimer g1" unfolding g1_def d_def by simp_all
  from n have n1: "\<not> gameOver g1" unfolding g1_def by (simp add: decay_gameOver)
  then have n2: "\<not> gameOver g2" unfolding g2_def by (simp add: spawn_keeps)
  from p have f2: "0 < freezeTimer g2" unfolding g2_def by (simp add: spawn_keeps)
  then have f5: "0 < freezeTimer g5" unfolding g5_def by (simp add: rowClear_keeps break_freeze_pos)
  have e: "elapsedTime g1 = elapsedTime g + d" unfolding g1_def using n by (simp add: decay_fields)
  have sp: "spawnTimer g1 = spawnTimer g" "fallingShapes g1 = fallingShapes g"
    unfolding g1_def by (simp_all add: decay_fields)
  have 1: "fallPhase d g2 = g2" by (rule fallPhase_frozen [OF f2])
  have 2: "clusterPhase f v g5 = g5" by (rule clusterPhase_frozen [OF f5])
  have 3: "spawnTimer g2 = 0
           \<and> (\<exists>fs. fallingShapes g2 = fallingShapes g @ [fs]
                \<and> speed fs = baseFall + min maxExtra ((elapsedTime g + d) * 5)
                \<and> sy fs < 0 \<and> cells fs \<noteq> [])" if "spawnInterval \<le> spawnTimer g + d"
    using spawn_due [of g1 d "rand f" v] n1 that
    unfolding g2_def by (simp add: sp v_def fallSpeedOf_def e)
  have 4: "spawnTimer g2 = spawnTimer g + d \<and> fallingShapes g2 = fallingShapes g"
    if "spawnTimer g + d < spawnInterval"
    using spawn_not_due [of g1 d "rand f" v] n1 that
    unfolding g2_def by (simp add: sp)
  have 5: "staticBlocks g2 = staticBlocks g" unfolding g2_def g1_def
    by (simp add: spawn_keeps decay_fields)
  have 6: "freezeTimer g2 = freezeTimer g - d" unfolding g2_def g1_def
    using decay_pos(2) [of d g] p by (simp add: spawn_keeps g1_def)
  have 7: "elapsedTime g2 = elapsedTime g + d" unfolding g2_def by (simp add: spawn_fields e)
  have 8: "cdLeft g2 = max 0 (cdLeft g - d)" "cdRight g2 = max 0 (cdRight g - d)"
    "cdUp g2 = max 0 (cdUp g - d)" "cdDown g2 = max 0 (cdDown g - d)"
    unfolding g2_def g1_def by (simp_all add: spawn_fields decay_fields)
  have "tick f g = gameOverCheck (clusterPhase f v g5)"
    unfolding tick_def Let_def g5_def g2_def v_def g1_def d_def
    using 1 by (simp add: g2_def v_def g1_def d_def)
  also have "\<dots> = gameOverCheck g5" by (simp only: 2)
  also have "\<dots> = suspendedRest f g2" unfolding g5_def by (rule rest_eq [OF n2])
  finally have 9: "tick f g = suspendedRest f g2" .
  have 10: "\<forall>s \<in> set (fallingShapes (tick f g)).
      \<exists>s0 \<in> set (fallingShapes g2). sx s = sx s0 \<and> sy s = sy s0"
    unfolding 9 by (rule suspendedRest_keeps)
  have 11: "\<forall>b \<in> set (staticBlocks (tick f g)).
      \<exists>b0 \<in> set (staticBlocks g). col b = col b0 \<and> type b = type b0 \<and> row b0 \<le> row b"
    unfolding 9 using suspendedRest_keeps(2) [of f g2] by (simp only: 5)
  from 1 2 3 4 5 6 7 8 n2 9 10 11
  show "let d = frameDt f;
             g1 = decayTimers d g;
             v = fallSpeedOf g1;
             g2 = spawnPhase (rand f) d v g1;
             g5 = rowClearPhase (breakPhase f g2)
         in fallPhase d g2 = g2
            \<and> clusterPhase f v g5 = g5
            \<and> (\<forall>s \<in> set (fallingShapes (tick f g)).
                  \<exists>s0 \<in> set (fallingShapes g2). sx s = sx s0 \<and> sy s = sy s0)
            \<and> (\<forall>b \<in> set (staticBlocks (tick f g)).
                  \<exists>b0 \<in> set (staticBlocks g). col b = col b0 \<and> type b = type b0 \<and> row b0 \<le> row b)
            \<and> (spawnInterval \<le> spawnTimer g + d \<longrightarrow>
                 spawnTimer g2 = 0
                 \<and> (\<exists>fs. fallingShapes g2 = fallingShapes g @ [fs]
                      \<and> speed fs = baseFall + min maxExtra ((elapsedTime g + d) * 5)
                      \<and> sy fs < 0 \<and> cells fs \<noteq> []))
            \<and> (spawnTimer g + d < spawnInterval \<longrightarrow>
                 spawnTimer g2 = spawnTimer g + d \<and> fallingShapes g2 = fallingShapes g)
            \<and> staticBlocks g2 = staticBlocks g
            \<and> freezeTimer g2 = freezeTimer g - d
            \<and> elapsedTime g2 = elapsedTime g + d
            \<and> cdLeft g2 = max 0 (cdLeft g - d) \<and> cdRight g2 = max 0 (cdRight g - d)
            \<and> cdUp g2 = max 0 (cdUp g - d) \<and> cdDown g2 = max 0 (cdDown g - d)
            \<and> \<not> gameOver g2
            \<and> tick f g = suspendedRest f g2"
    unfolding Let_def g5_def [symmetric] g2_def [symmetric] v_def [symmetric] g1_def [symmetric]
      d_def [symmetric]
    by blast
qed


theorem freeze_expiring_tick_counterexample:
  "0 < freezeTimer
         \<lparr>staticBlocks = [\<lparr>col = 3, row = 5, type = NORMAL\<rparr>],
          fallingShapes = [\<lparr>sx = 0, sy = 100, speed = 220, cells = [(0, 0)], types = [NORMAL]\<rparr>],
          spawnTimer = 0, elapsedTime = 20, cdLeft = 0, cdRight = 0, cdUp = 0, cdDown = 0,
          timeSinceLastPowerup = 0, freezeTimer = 1 / 64, gameOver = False\<rparr>
   \<and> tick \<lparr>frameDt = 1 / 32, keyLeft = False, keyRight = False, keyUp = False, keyDown = False,
           playerX = 225, playerY = 560, playerW = 30, playerH = 30, rand = (\<lambda>k. 0)\<rparr>
        \<lparr>staticBlocks = [\<lparr>col = 3, row = 5, type = NORMAL\<rparr>],
         fallingShapes = [\<lparr>sx = 0, sy = 100, speed = 220, cells = [(0, 0)], types = [NORMAL]\<rparr>],
         spawnTimer = 0, elapsedTime = 20, cdLeft = 0, cdRight = 0, cdUp = 0, cdDown = 0,
         timeSinceLastPowerup = 0, freezeTimer = 1 / 64, gameOver = False\<rparr>
     = \<lparr>staticBlocks = [],
        fallingShapes = [\<lparr>sx = 0, sy = 855 / 8, speed = 220, cells = [(0, 0)], types = [NORMAL]\<rparr>,
                         \<lparr>sx = 90, sy = 150, speed = 280, cells = [(0, 0)], types = [NORMAL]\<rparr>],
        spawnTimer = 1 / 32, elapsedTime = 641 / 32, cdLeft = 0, cdRight = 0, cdUp = 0, cdDown = 0,
        timeSinceLastPowerup = 1 / 32, freezeTimer = 0, gameOver = False\<rparr>"
proof -
  have u: "updateFalling (1 / 32) [\<lparr>col = 3, row = 5, type = NORMAL\<rparr>]
             [\<lparr>sx = 0, sy = 100, speed = 220, cells = [(0, 0)], types = [NORMAL]\<rparr>]
           = ([\<lparr>col = 3, row = 5, type = NORMAL\<rparr>],
              [\<lparr>sx = 0, sy = 855 / 8, speed = 220, cells = [(0, 0)], types = [NORMAL]\<rparr>])"
    by (simp add: land_eval)
  have r: "rowClear [\<lparr>col = 3, row = 5, type = NORMAL\<rparr>] = [\<lparr>col = 3, row = 5, type = NORMAL\<rparr>]"
    by (simp add: rowClear_def buildOcc_def ROWS_val COLS_val upto_rows upto_cols)
  have c: "resolveFloatingClusters [\<lparr>col = 3, row = 5, type = NORMAL\<rparr>]
             [\<lparr>sx = 0, sy = 855 / 8, speed = 220, cells = [(0, 0)], types = [NORMAL]\<rparr>] 280 7 8 18 19
           = ([], [\<lparr>sx = 0, sy = 855 / 8, speed = 220, cells = [(0, 0)], types = [NORMAL]\<rparr>,
                   \<lparr>sx = 90, sy = 150, speed = 280, cells = [(0, 0)], types = [NORMAL]\<rparr>])"
    by (simp add: resolve_components emitAll_def shapeAll_def scan_eval supported_def
        belowInComp_def emitBlocks_def makeShape_def buildTypeAt_def CELL_def)
  show ?thesis
    by (simp add: tick_def decayTimers_def fallSpeedOf_def baseFall_def maxExtra_def
        spawnPhase_def spawnInterval_def fallPhase_def u breakPhase_def tryBreak_def
        rowClearPhase_def r clusterPhase_def cdiv_def CELL_def c gameOverCheck_def Let_def)
qed

theorem freeze_suspends_witness:
  "tryBreak True 3 5 0 NORMAL ([\<lparr>col = 3, row = 5, type = FREEZE\<rparr>], [], 0)
     = (ABILITY_CD, FREEZE, [], [], 10)
   \<and> tick \<lparr>frameDt = 1 / 32, keyLeft = False, keyRight = False, keyUp = False, keyDown = True,
           playerX = 225, playerY = 510, playerW = 30, playerH = 30, rand = (\<lambda>k. 0)\<rparr>
        \<lparr>staticBlocks = \<lparr>col = 7, row = 18, type = LASER_H\<rparr> # \<lparr>col = 2, row = 18, type = NORMAL\<rparr>
            # \<lparr>col = 3, row = 5, type = NORMAL\<rparr> # map (\<lambda>c. \<lparr>col = c, row = 19, type = NORMAL\<rparr>) [0..15],
         fallingShapes = [\<lparr>sx = 0, sy = 100, speed = 220, cells = [(0, 0)], types = [NORMAL]\<rparr>],
         spawnTimer = 3 / 4, elapsedTime = 20, cdLeft = 0, cdRight = 0, cdUp = 0, cdDown = 0,
         timeSinceLastPowerup = 0, freezeTimer = 10, gameOver = False\<rparr>
     = \<lparr>staticBlocks = [\<lparr>col = 3, row = 6, type = NORMAL\<rparr>],
        fallingShapes = [\<lparr>sx = 0, sy = 100, speed = 220, cells = [(0, 0)], types = [NORMAL]\<rparr>,
                         \<lparr>sx = 0, sy = - 30, speed = 280, cells = [(0, 0)], types = [BOMB]\<rparr>],
        spawnTimer = 0, elapsedTime = 641 / 32, cdLeft = 0, cdRight = 0, cdUp = 0, cdDown = 1 / 2,
        timeSinceLastPowerup = 0, freezeTimer = 319 / 32, gameOver = False\<rparr>
   \<and> tick \<lparr>frameDt = 1 / 32, keyLeft = False, keyRight = False, keyUp = False, keyDown = False,
           playerX = 225, playerY = 560, playerW = 30, playerH = 30, rand = (\<lambda>k. 0)\<rparr>
        \<lparr>staticBlocks = [\<lparr>col = 3, row = 0, type = NORMAL\<rparr>], fallingShapes = [],
         spawnTimer = 0, elapsedTime = 20, cdLeft = 0, cdRight = 0, cdUp = 0, cdDown = 0,
         timeSinceLastPowerup = 0, freezeTimer = 10, gameOver = False\<rparr>
     = \<lparr>staticBlocks = [\<lparr>col = 3, row = 0, type = NORMAL\<rparr>], fallingShapes = [],
        spawnTimer = 1 / 32, elapsedTime = 641 / 32, cdLeft = 0, cdRight = 0, cdUp = 0, cdDown = 0,
        timeSinceLastPowerup = 1 / 32, freezeTimer = 319 / 32, gameOver = True\<rparr>"
proof -
  let ?fA = "\<lparr>frameDt = 1 / 32, keyLeft = False, keyRight = False, keyUp = False, keyDown = True,
           playerX = 225, playerY = 510, playerW = 30, playerH = 30, rand = (\<lambda>k. 0)\<rparr>"
  let ?gA = "\<lparr>staticBlocks = \<lparr>col = 7, row = 18, type = LASER_H\<rparr> # \<lparr>col = 2, row = 18, type = NORMAL\<rparr>
            # \<lparr>col = 3, row = 5, type = NORMAL\<rparr> # map (\<lambda>c. \<lparr>col = c, row = 19, type = NORMAL\<rparr>) [0..15],
         fallingShapes = [\<lparr>sx = 0, sy = 100, speed = 220, cells = [(0, 0)], types = [NORMAL]\<rparr>],
         spawnTimer = 3 / 4, elapsedTime = 20, cdLeft = 0, cdRight = 0, cdUp = 0, cdDown = 0,
         timeSinceLastPowerup = 0, freezeTimer = 10, gameOver = False\<rparr>"
  let ?fB = "\<lparr>frameDt = 1 / 32, keyLeft = False, keyRight = False, keyUp = False, keyDown = False,
           playerX = 225, playerY = 560, playerW = 30, playerH = 30, rand = (\<lambda>k. 0)\<rparr>"
  let ?gB = "\<lparr>staticBlocks = [\<lparr>col = 3, row = 0, type = NORMAL\<rparr>], fallingShapes = [],
         spawnTimer = 0, elapsedTime = 20, cdLeft = 0, cdRight = 0, cdUp = 0, cdDown = 0,
         timeSinceLastPowerup = 0, freezeTimer = 10, gameOver = False\<rparr>"
  have b: "breakAt 3 5 0 NORMAL [\<lparr>col = 3, row = 5, type = FREEZE\<rparr>] = (True, ABILITY_CD, FREEZE, [])"
    by (simp add: breakAt_def ROWS_val COLS_val)
  have hA: "\<not> gameOver ?gA \<and> 0 < freezeTimer (decayTimers (frameDt ?fA) ?gA)"
    by (simp add: decayTimers_def Let_def)
  have hB: "\<not> gameOver ?gB \<and> 0 < freezeTimer (decayTimers (frameDt ?fB) ?gB)"
    by (simp add: decayTimers_def Let_def)
  define bs where
    "bs = \<lparr>col = 3, row = 5, type = NORMAL\<rparr> # map (\<lambda>c. \<lparr>col = c, row = 19, type = NORMAL\<rparr>) [0..15]"
  have "fullRowsOf bs = [19]"
    unfolding bs_def by (simp add: fullRowsOf_def buildOcc_def ROWS_val COLS_val upto_cols upto_rows)
  with fullRowsOf_set [of bs] have f: "\<And>r. fullRow bs r = (r = 19)" by auto
  have c: "{r. r = 19 \<and> r > (5::int)} = {19}" by auto
  have k: "filter (\<lambda>b. row b \<noteq> 19) bs = [\<lparr>col = 3, row = 5, type = NORMAL\<rparr>]"
    unfolding bs_def by (simp add: upto_cols)
  from rowClear_eq [of bs] have "rowClear bs = [\<lparr>col = 3, row = 6, type = NORMAL\<rparr>]"
    by (simp add: f k c)
  then have rA: "rowClear (\<lparr>col = 3, row = 5, type = NORMAL\<rparr>
      # map (\<lambda>c. \<lparr>col = c, row = 19, type = NORMAL\<rparr>) [0..15]) = [\<lparr>col = 3, row = 6, type = NORMAL\<rparr>]"
    unfolding bs_def .
  have rB: "rowClear [\<lparr>col = 3, row = 0, type = NORMAL\<rparr>] = [\<lparr>col = 3, row = 0, type = NORMAL\<rparr>]"
    by (simp add: rowClear_def buildOcc_def ROWS_val COLS_val upto_rows upto_cols)
  have cm: "\<lceil>- 1 :: real\<rceil> = - 1" by (simp add: ceiling_def)
  have eA: "suspendedRest ?fA (spawnPhase (rand ?fA) (frameDt ?fA)
        (fallSpeedOf (decayTimers (frameDt ?fA) ?gA)) (decayTimers (frameDt ?fA) ?gA))
     = \<lparr>staticBlocks = [\<lparr>col = 3, row = 6, type = NORMAL\<rparr>],
        fallingShapes = [\<lparr>sx = 0, sy = 100, speed = 220, cells = [(0, 0)], types = [NORMAL]\<rparr>,
                         \<lparr>sx = 0, sy = - 30, speed = 280, cells = [(0, 0)], types = [BOMB]\<rparr>],
        spawnTimer = 0, elapsedTime = 641 / 32, cdLeft = 0, cdRight = 0, cdUp = 0, cdDown = 1 / 2,
        timeSinceLastPowerup = 0, freezeTimer = 319 / 32, gameOver = False\<rparr>"
    by (simp add: suspendedRest_def keyBreak_def breakAt_def ABILITY_CD_def stripShapes_def
        stripShape_def cint_def decayTimers_def fallSpeedOf_def baseFall_def maxExtra_def
        spawnPhase_def spawnInterval_def POWERUP_MAX_GAP_def cdiv_def CELL_def ROWS_val COLS_val
        rA cm Let_def)
  have eB: "suspendedRest ?fB (spawnPhase (rand ?fB) (frameDt ?fB)
        (fallSpeedOf (decayTimers (frameDt ?fB) ?gB)) (decayTimers (frameDt ?fB) ?gB))
     = \<lparr>staticBlocks = [\<lparr>col = 3, row = 0, type = NORMAL\<rparr>], fallingShapes = [],
        spawnTimer = 1 / 32, elapsedTime = 641 / 32, cdLeft = 0, cdRight = 0, cdUp = 0, cdDown = 0,
        timeSinceLastPowerup = 1 / 32, freezeTimer = 319 / 32, gameOver = True\<rparr>"
    by (simp add: suspendedRest_def keyBreak_def breakAt_def
        decayTimers_def fallSpeedOf_def baseFall_def maxExtra_def
        spawnPhase_def spawnInterval_def cdiv_def CELL_def ROWS_val COLS_val rB Let_def)
  note t = freeze_suspends [of 3 5 0 NORMAL "[\<lparr>col = 3, row = 5, type = FREEZE\<rparr>]" ABILITY_CD "[]" "[]" 0 ?gA ?fA]
  note t' = freeze_suspends [where g = ?gB and f = ?fB]
  from t b have 1: "tryBreak True 3 5 0 NORMAL ([\<lparr>col = 3, row = 5, type = FREEZE\<rparr>], [], 0)
     = (ABILITY_CD, FREEZE, [], [], 10)" by simp
  from t hA have 2: "tick ?fA ?gA = suspendedRest ?fA (spawnPhase (rand ?fA) (frameDt ?fA)
        (fallSpeedOf (decayTimers (frameDt ?fA) ?gA)) (decayTimers (frameDt ?fA) ?gA))"
    unfolding Let_def by blast
  from t' hB have 3: "tick ?fB ?gB = suspendedRest ?fB (spawnPhase (rand ?fB) (frameDt ?fB)
        (fallSpeedOf (decayTimers (frameDt ?fB) ?gB)) (decayTimers (frameDt ?fB) ?gB))"
    unfolding Let_def by blast
  from 1 2 3 show ?thesis unfolding eA eB by (intro conjI)
qed

section \<open>One block per cell\<close>

























end
